theory Spec2Isabelle
  imports Complex_Main "HOL-Library.Multiset"
begin

section \<open>RedisTaggedCache: tag references and bulk invalidation\<close>

text \<open>
  The development embeds \<^verbatim>\<open>src/RedisTaggedCache.js\<close>. The class talks to three
  collaborators that are not part of the file: the Redis client \<^verbatim>\<open>this.store\<close>
  (commands \<^verbatim>\<open>smembers\<close>, \<^verbatim>\<open>del\<close>, \<^verbatim>\<open>pipeline().sadd ... exec\<close>), the tag set
  \<^verbatim>\<open>this.tags\<close> and the superclass \<^verbatim>\<open>TaggedCache\<close>. Every method returns a promise;
  a promise is modelled as a tree of pending work, and an execution is a sequence of
  replies, each completing one call that is in flight. Theorems that quantify over all
  schedules therefore cover every interleaving of the concurrent calls.
\<close>

subsection \<open>JavaScript values and errors\<close>

datatype error = StoreUnavailable | WrongType | SyntaxError | TypeError | External nat

text \<open>
  A number is a double: \<open>Num x\<close> is the finite number \<open>x\<close> (\<open>Num 0\<close> is \<^verbatim>\<open>+0\<close>), and
  \<^verbatim>\<open>-0\<close>, \<^verbatim>\<open>NaN\<close> and the two infinities are values of their own.
\<close>

datatype val =
    Undefined | Null
  | Num real | NegZero | NaN | Infinity bool
  | Str string | Arr "val list" | Err error

type_synonym result = "error + val"

text \<open>Truthiness, as tested by \<^verbatim>\<open>ttl ? a : b\<close> and \<^verbatim>\<open>!members\<close>. The falsy numbers are
  \<^verbatim>\<open>0\<close>, \<^verbatim>\<open>-0\<close> and \<^verbatim>\<open>NaN\<close>.\<close>

fun truthy :: "val \<Rightarrow> bool" where
  "truthy Undefined = False"
| "truthy Null = False"
| "truthy (Num x) = (x \<noteq> 0)"
| "truthy NegZero = False"
| "truthy NaN = False"
| "truthy (Infinity negative) = True"
| "truthy (Str s) = (s \<noteq> [])"
| "truthy (Arr xs) = True"
| "truthy (Err e) = True"

text \<open>\<^verbatim>\<open>s.split(sep)\<close> for a one-character separator: never empty, \<^verbatim>\<open>''.split('|')\<close> is \<^verbatim>\<open>['']\<close>.\<close>

fun js_split :: "char \<Rightarrow> string \<Rightarrow> string list" where
  "js_split sep [] = [[]]"
| "js_split sep (c # cs) =
     (if c = sep then [] # js_split sep cs
      else (case js_split sep cs of [] \<Rightarrow> [[c]] | s # ss \<Rightarrow> (c # s) # ss))"

text \<open>\<^verbatim>\<open>array.slice(b, e)\<close> for \<^verbatim>\<open>0 \<le> b \<le> e\<close>: the end is clamped to the length.\<close>

definition slice :: "'a list \<Rightarrow> nat \<Rightarrow> nat \<Rightarrow> 'a list" where
  "slice array b e = take (e - b) (drop b array)"

text \<open>A JavaScript \<^verbatim>\<open>Set\<close> keeps the first occurrence of each element, in insertion order.\<close>

definition set_add :: "'a list \<Rightarrow> 'a \<Rightarrow> 'a list" where
  "set_add s x = (if x \<in> set s then s else s @ [x])"

definition new_Set :: "'a list \<Rightarrow> 'a list" where
  "new_Set xs = foldl set_add [] xs"

text \<open>\<^verbatim>\<open>Array.from(new Set(members))\<close>. An array is deduplicated; \<^verbatim>\<open>undefined\<close> and \<^verbatim>\<open>null\<close>
  give the empty set, a string is iterated by characters, and a value that is not iterable
  makes the constructor throw.\<close>

fun array_from_new_Set :: "val \<Rightarrow> result" where
  "array_from_new_Set (Arr xs) = Inr (Arr (new_Set xs))"
| "array_from_new_Set Undefined = Inr (Arr [])"
| "array_from_new_Set Null = Inr (Arr [])"
| "array_from_new_Set (Str s) = Inr (Arr (new_Set (map (\<lambda>c. Str [c]) s)))"
| "array_from_new_Set (Num x) = Inl TypeError"
| "array_from_new_Set NegZero = Inl TypeError"
| "array_from_new_Set NaN = Inl TypeError"
| "array_from_new_Set (Infinity negative) = Inl TypeError"
| "array_from_new_Set (Err e) = Inl TypeError"

text \<open>Redis keys and members are strings. The members read by \<^verbatim>\<open>smembers\<close> are strings, so
  the other cases do not occur; they are sent as the empty string.\<close>

fun string_of :: "val \<Rightarrow> string" where
  "string_of (Str s) = s"
| "string_of v = []"

subsection \<open>chunkArray\<close>

text \<open>
  \<^verbatim>\<open>for (i = 0, j = array.length; i < j; i += chunkSize) output.push(array.slice(i, i + chunkSize))\<close>.
  With \<^verbatim>\<open>chunkSize = 0\<close> and a non-empty array the loop never ends, so the loop is a partial
  function and not returning is \<open>None\<close>.
\<close>

partial_function (option) chunkArray_loop ::
    "'a list \<Rightarrow> nat \<Rightarrow> nat \<Rightarrow> 'a list list \<Rightarrow> 'a list list option" where
  [code]: "chunkArray_loop array chunkSize i output =
     (if i < length array
      then chunkArray_loop array chunkSize (i + chunkSize) (output @ [slice array i (i + chunkSize)])
      else Some output)"

definition chunkArray :: "'a list \<Rightarrow> nat \<Rightarrow> 'a list list option" where
  "chunkArray array chunkSize = chunkArray_loop array chunkSize 0 []"

subsection \<open>The store and the other collaborators\<close>

type_synonym key = string

datatype stored = StringValue string | SetValue "string list"

type_synonym store = "key \<rightharpoonup> stored"

datatype cmd = SADD key string

datatype call =
    SMEMBERS key
  | DEL "key list"
  | EXEC "cmd list"
  | GetNamespace
  | SuperSet string val val
  | SuperIncrement string val
  | SuperDecrement string val
  | SuperFlush

text \<open>
  The object \<^verbatim>\<open>this\<close>: the tag prefix, the store's \<^verbatim>\<open>options.keyPrefix\<close>, the imported
  \<^verbatim>\<open>sha1\<close>, and the two collaborators whose code is elsewhere, as functions of the store
  contents: \<^verbatim>\<open>this.tags.getNamespace()\<close> and the methods of the superclass.
\<close>

record cache =
  tagPrefix :: string
  keyPrefix :: string
  sha1 :: "string \<Rightarrow> string"
  getNamespace :: "store \<Rightarrow> result \<times> store"
  super :: "call \<Rightarrow> store \<Rightarrow> result \<times> store"

text \<open>
  The world outside the process: the contents of the store, the calls completed so far with
  their replies (oldest first), and for each position in that log whether the call arriving
  there fails in transport.
\<close>

record world =
  kv :: store
  log :: "(call \<times> result) list"
  faulty :: "nat \<Rightarrow> error option"

text \<open>The members of the set stored under a key; no set, no members.\<close>

definition members :: "store \<Rightarrow> key \<Rightarrow> string set" where
  "members s k = (case s k of Some (SetValue ms) \<Rightarrow> set ms | _ \<Rightarrow> {})"

definition holds_string :: "store \<Rightarrow> key \<Rightarrow> bool" where
  "holds_string s k = (case s k of Some (StringValue v) \<Rightarrow> True | _ \<Rightarrow> False)"

text \<open>\<^verbatim>\<open>SADD key member\<close> inside a pipeline: the reply is the pair \<^verbatim>\<open>[err, result]\<close>.\<close>

definition sadd :: "key \<Rightarrow> string \<Rightarrow> store \<Rightarrow> val \<times> store" where
  "sadd k m s =
     (case s k of
        None \<Rightarrow> (Arr [Null, Num 1], s(k \<mapsto> SetValue [m]))
      | Some (SetValue ms) \<Rightarrow>
          (if m \<in> set ms then (Arr [Null, Num 0], s)
           else (Arr [Null, Num 1], s(k \<mapsto> SetValue (ms @ [m]))))
      | Some (StringValue v) \<Rightarrow> (Arr [Err WrongType, Undefined], s))"

fun exec_pipeline :: "cmd list \<Rightarrow> store \<Rightarrow> val list \<times> store" where
  "exec_pipeline [] s = ([], s)"
| "exec_pipeline (SADD k m # cs) s =
     (let (r, s') = sadd k m s; (rs, s'') = exec_pipeline cs s' in (r # rs, s''))"

definition smembers :: "key \<Rightarrow> store \<Rightarrow> result \<times> store" where
  "smembers k s =
     (case s k of
        None \<Rightarrow> (Inr (Arr []), s)
      | Some (SetValue ms) \<Rightarrow> (Inr (Arr (map Str ms)), s)
      | Some (StringValue v) \<Rightarrow> (Inl WrongType, s))"

definition del :: "key list \<Rightarrow> store \<Rightarrow> result \<times> store" where
  "del ks s =
     (if ks = [] then (Inl SyntaxError, s)
      else (Inr (Num (real (length (filter (\<lambda>k. s k \<noteq> None) (remdups ks))))),
            (\<lambda>k. if k \<in> set ks then None else s k)))"

text \<open>
  \<^verbatim>\<open>this.store\<close> is an ioredis client: \<^verbatim>\<open>pushKeys\<close> reads its \<^verbatim>\<open>options.keyPrefix\<close> and
  calls its \<^verbatim>\<open>pipeline()\<close>. Such a client prepends \<^verbatim>\<open>keyPrefix\<close> to the key of every
  command it sends, also inside a pipeline. The members of a
  set are not keys and are sent as they are. The store holds the keys as the server has
  them, so the command the code issues for the key \<open>k\<close> acts on \<open>prefixed this k\<close>.
\<close>

definition prefixed :: "cache \<Rightarrow> key \<Rightarrow> key" where
  "prefixed this k = keyPrefix this @ k"

fun prefixed_cmd :: "cache \<Rightarrow> cmd \<Rightarrow> cmd" where
  "prefixed_cmd this (SADD k m) = SADD (prefixed this k) m"

fun apply_call :: "cache \<Rightarrow> call \<Rightarrow> store \<Rightarrow> result \<times> store" where
  "apply_call this (SMEMBERS k) s = smembers (prefixed this k) s"
| "apply_call this (DEL ks) s = del (map (prefixed this) ks) s"
| "apply_call this (EXEC cs) s =
     (let (rs, s') = exec_pipeline (map (prefixed_cmd this) cs) s in (Inr (Arr rs), s'))"
| "apply_call this GetNamespace s = getNamespace this s"
| "apply_call this c s = super this c s"

definition perform :: "cache \<Rightarrow> call \<Rightarrow> world \<Rightarrow> result \<times> world" where
  "perform this c w =
     (case faulty w (length (log w)) of
        Some e \<Rightarrow> (Inl e, w\<lparr>log := log w @ [(c, Inl e)]\<rparr>)
      | None \<Rightarrow>
          (let (r, s') = apply_call this c (kv w)
           in (r, w\<lparr>kv := s', log := log w @ [(c, r)]\<rparr>)))"

subsection \<open>Promises\<close>

text \<open>
  A promise is a tree. \<open>Await c\<close> is a call in flight. \<open>Then t f\<close> is \<^verbatim>\<open>t.then(f)\<close> while
  \<open>t\<close> is not fulfilled; once \<open>t\<close> is fulfilled with \<open>v\<close> it becomes \<open>Chained t (f v)\<close>.
  \<open>Par limit ts oc\<close> is a \<^verbatim>\<open>Promise.all\<close> (no limit) or a Bluebird \<^verbatim>\<open>Promise.map\<close> with
  \<^verbatim>\<open>{concurrency: limit}\<close>; \<open>oc\<close> is its own outcome once it has one, and a child
  \<open>Queued t\<close> is a mapper call that has not been made yet. A settled \<open>Par\<close> keeps its
  children: a rejection cancels nothing, the siblings go on. \<open>Diverged\<close> is a callback
  that never returns.
\<close>

datatype task =
    Settled result
  | Await call
  | Diverged
  | Queued task
  | Then task "val \<Rightarrow> task"
  | Chained task task
  | Par "nat option" "task list" "result option"

fun outcome :: "task \<Rightarrow> result option" where
  "outcome (Settled r) = Some r"
| "outcome (Await c) = None"
| "outcome Diverged = None"
| "outcome (Queued t) = None"
| "outcome (Then t f) = (case outcome t of Some (Inl e) \<Rightarrow> Some (Inl e) | _ \<Rightarrow> None)"
| "outcome (Chained t u) = outcome u"
| "outcome (Par l ts oc) = oc"

text \<open>The calls in flight, left to right.\<close>

fun inflight :: "task \<Rightarrow> call list" where
  "inflight (Settled r) = []"
| "inflight (Await c) = [c]"
| "inflight Diverged = []"
| "inflight (Queued t) = []"
| "inflight (Then t f) = inflight t"
| "inflight (Chained t u) = inflight u"
| "inflight (Par l ts oc) = concat (map inflight ts)"

definition fulfilled :: "task \<Rightarrow> bool" where
  "fulfilled t = (case outcome t of Some (Inr v) \<Rightarrow> True | _ \<Rightarrow> False)"

definition rejected :: "task \<Rightarrow> bool" where
  "rejected t = (case outcome t of Some (Inl e) \<Rightarrow> True | _ \<Rightarrow> False)"

definition value_of :: "task \<Rightarrow> val" where
  "value_of t = (case outcome t of Some (Inr v) \<Rightarrow> v | _ \<Rightarrow> Undefined)"

definition promise_then :: "task \<Rightarrow> (val \<Rightarrow> task) \<Rightarrow> task" where
  "promise_then t f = (case outcome t of Some (Inr v) \<Rightarrow> Chained t (f v) | _ \<Rightarrow> Then t f)"

fun first_rejection :: "task list \<Rightarrow> error option" where
  "first_rejection [] = None"
| "first_rejection (t # ts) =
     (case outcome t of Some (Inl e) \<Rightarrow> Some e | _ \<Rightarrow> first_rejection ts)"

text \<open>The outcome of a join: rejected as soon as a child is, fulfilled with the array of
  the children's values once all are.\<close>

definition join :: "task list \<Rightarrow> result option" where
  "join ts =
     (case first_rejection ts of
        Some e \<Rightarrow> Some (Inl e)
      | None \<Rightarrow> if list_all fulfilled ts then Some (Inr (Arr (map value_of ts))) else None)"

definition promise_all :: "task list \<Rightarrow> task" where
  "promise_all ts = Par None ts (join ts)"

fun is_Queued :: "task \<Rightarrow> bool" where
  "is_Queued (Queued t) = True"
| "is_Queued t = False"

definition active :: "task \<Rightarrow> bool" where
  "active t = (\<not> is_Queued t \<and> outcome t = None)"

text \<open>Make queued mapper calls, front first, while fewer than the limit are unsettled.\<close>

fun drain :: "nat \<Rightarrow> task list \<Rightarrow> task list" where
  "drain cap [] = []"
| "drain cap (Queued t # ts) =
     (if cap = 0 then Queued t # ts
      else t # drain (if outcome t = None then cap - 1 else cap) ts)"
| "drain cap (t # ts) = t # drain cap ts"

text \<open>Bluebird starts the first \<open>limit\<close> mapper calls in order; when one settles it takes
  the next from the end of its queue.\<close>

definition promise_map :: "val list \<Rightarrow> (val \<Rightarrow> task) \<Rightarrow> nat \<Rightarrow> task" where
  "promise_map items mapper concurrency =
     (let ts = drain concurrency (map (\<lambda>x. Queued (mapper x)) items)
      in Par (Some concurrency) ts (join ts))"

definition refill :: "nat option \<Rightarrow> task list \<Rightarrow> task list" where
  "refill limit ts =
     (case limit of
        None \<Rightarrow> ts
      | Some n \<Rightarrow> rev (drain (n - length (filter active ts)) (rev ts)))"

definition settle :: "nat option \<Rightarrow> task list \<Rightarrow> result option \<Rightarrow> task" where
  "settle limit ts oc =
     (case oc of
        Some r \<Rightarrow> Par limit ts oc
      | None \<Rightarrow>
          (case join ts of
             Some r \<Rightarrow> Par limit ts (Some r)
           | None \<Rightarrow> (let ts' = refill limit ts in Par limit ts' (join ts'))))"

text \<open>
  One reply arrives. \<open>target p t\<close> is the call in flight at the path \<open>p\<close> of the
  tree, \<open>deliver p r t\<close> is the tree after the reply \<open>r\<close> to that call: the call is
  settled and every promise above it reacts. \<open>fire\<close> completes the call against the
  world; a path that leads to no call in flight changes nothing.
\<close>

type_synonym path = "nat list"

fun target :: "path \<Rightarrow> task \<Rightarrow> call option" where
  "target [] (Await c) = Some c"
| "target (0 # p) (Then t f) = target p t"
| "target (Suc 0 # p) (Chained t u) = target p u"
| "target (i # p) (Par limit ts oc) = (if i < length ts then target p (ts ! i) else None)"
| "target p t = None"

fun deliver :: "path \<Rightarrow> result \<Rightarrow> task \<Rightarrow> task" where
  "deliver [] r (Await c) = Settled r"
| "deliver (0 # p) r (Then t f) = promise_then (deliver p r t) f"
| "deliver (Suc 0 # p) r (Chained t u) = Chained t (deliver p r u)"
| "deliver (i # p) r (Par limit ts oc) =
     (if i < length ts then settle limit (ts[i := deliver p r (ts ! i)]) oc
      else Par limit ts oc)"
| "deliver p r t = t"

definition fire :: "cache \<Rightarrow> path \<Rightarrow> task \<Rightarrow> world \<Rightarrow> task \<times> world" where
  "fire this p t w =
     (case target p t of
        None \<Rightarrow> (t, w)
      | Some c \<Rightarrow> (let (r, w') = perform this c w in (deliver p r t, w')))"

text \<open>An execution: the replies arrive in the order of the schedule.\<close>

fun run :: "cache \<Rightarrow> path list \<Rightarrow> task \<times> world \<Rightarrow> task \<times> world" where
  "run this [] c = c"
| "run this (p # ps) c = run this ps (fire this p (fst c) (snd c))"

text \<open>The calls made since the world \<open>w\<close>: those completed, then those in flight.\<close>

definition completed :: "world \<Rightarrow> world \<Rightarrow> (call \<times> result) list" where
  "completed w w' = drop (length (log w)) (log w')"

definition calls_made :: "world \<Rightarrow> task \<times> world \<Rightarrow> call list" where
  "calls_made w c = map fst (completed w (snd c)) @ inflight (fst c)"

text \<open>A property of every call a promise can ever make, whatever replies arrive.\<close>

primrec all_calls :: "(call \<Rightarrow> bool) \<Rightarrow> task \<Rightarrow> bool" where
  "all_calls P (Settled r) = True"
| "all_calls P (Await c) = P c"
| "all_calls P Diverged = True"
| "all_calls P (Queued t) = all_calls P t"
| "all_calls P (Then t f) = (all_calls P t \<and> (\<forall>v. all_calls P (f v)))"
| "all_calls P (Chained t u) = (all_calls P t \<and> all_calls P u)"
| "all_calls P (Par l ts oc) = list_all id (map (all_calls P) ts)"

subsection \<open>The class\<close>

definition REFERENCE_KEY_FOREVER :: string where
  "REFERENCE_KEY_FOREVER = ''forever_ref''"

definition REFERENCE_KEY_STANDARD :: string where
  "REFERENCE_KEY_STANDARD = ''standard_ref''"

definition referenceKey :: "cache \<Rightarrow> string \<Rightarrow> string \<Rightarrow> string" where
  "referenceKey this segment suffix = tagPrefix this @ segment @ '':'' @ suffix"

definition fullKey :: "cache \<Rightarrow> string \<Rightarrow> string \<Rightarrow> string" where
  "fullKey this namespace key = keyPrefix this @ sha1 this namespace @ '':'' @ key"

definition pushKeys :: "cache \<Rightarrow> string \<Rightarrow> string \<Rightarrow> string \<Rightarrow> task" where
  "pushKeys this namespace key reference =
     (let fullKey' = fullKey this namespace key;
          pipeline = foldl (\<lambda>pipeline segment.
                        pipeline @ [SADD (referenceKey this segment reference) fullKey'])
                      [] (js_split CHR ''|'' namespace)
      in Await (EXEC pipeline))"

definition pushStandardKeys :: "cache \<Rightarrow> string \<Rightarrow> string \<Rightarrow> task" where
  "pushStandardKeys this namespace key = pushKeys this namespace key REFERENCE_KEY_STANDARD"

definition pushForeverKeys :: "cache \<Rightarrow> string \<Rightarrow> string \<Rightarrow> task" where
  "pushForeverKeys this namespace key = pushKeys this namespace key REFERENCE_KEY_FOREVER"

text \<open>A callback that takes the namespace calls \<^verbatim>\<open>sha1\<close> and \<^verbatim>\<open>split\<close> on it; on a value
  that is not a string it throws, which rejects the promise of the \<^verbatim>\<open>then\<close>.\<close>

definition with_namespace :: "val \<Rightarrow> (string \<Rightarrow> task) \<Rightarrow> task" where
  "with_namespace namespace f =
     (case namespace of Str ns \<Rightarrow> f ns | _ \<Rightarrow> Settled (Inl TypeError))"

definition set_item :: "cache \<Rightarrow> string \<Rightarrow> val \<Rightarrow> val \<Rightarrow> task" where
  "set_item this key value ttl =
     (let reference = (if truthy ttl then REFERENCE_KEY_STANDARD else REFERENCE_KEY_FOREVER)
      in promise_then (Await GetNamespace) (\<lambda>namespace.
           with_namespace namespace (\<lambda>ns.
             promise_all [pushKeys this ns key reference, Await (SuperSet key value ttl)])))"

definition default_one :: "val \<Rightarrow> val" where
  "default_one value = (if value = Undefined then Num 1 else value)"

definition increment :: "cache \<Rightarrow> string \<Rightarrow> val \<Rightarrow> task" where
  "increment this key value =
     (let nsPromise = Await GetNamespace
      in promise_all
           [promise_then nsPromise (\<lambda>namespace.
              with_namespace namespace (\<lambda>ns. pushStandardKeys this ns key)),
            Await (SuperIncrement key (default_one value))])"

definition decrement :: "cache \<Rightarrow> string \<Rightarrow> val \<Rightarrow> task" where
  "decrement this key value =
     (let nsPromise = Await GetNamespace
      in promise_all
           [promise_then nsPromise (\<lambda>namespace.
              with_namespace namespace (\<lambda>ns. pushStandardKeys this ns key)),
            Await (SuperDecrement key (default_one value))])"

text \<open>\<^verbatim>\<open>this.store.del(chunk)\<close>: the client flattens the array into the command's keys.\<close>

definition del_chunk :: "val \<Rightarrow> task" where
  "del_chunk chunk = (case chunk of Arr xs \<Rightarrow> Await (DEL (map string_of xs)) | _ \<Rightarrow> Await (DEL [string_of chunk]))"

definition deleteValues :: "cache \<Rightarrow> string \<Rightarrow> task" where
  "deleteValues this referenceKey' =
     promise_then
       (promise_then
          (promise_then (Await (SMEMBERS referenceKey'))
             (\<lambda>members. Settled (array_from_new_Set members)))
          (\<lambda>members.
             if \<not> truthy members then Settled (Inr Undefined)
             else (case members of
                     Arr ms \<Rightarrow>
                       (case chunkArray ms 1000 of
                          None \<Rightarrow> Diverged
                        | Some chunks \<Rightarrow> promise_map (map Arr chunks) del_chunk 100)
                   | _ \<Rightarrow> Settled (Inl TypeError))))
       (\<lambda>_. Settled (Inr Undefined))"

definition deleteKeysByReference :: "cache \<Rightarrow> string \<Rightarrow> task" where
  "deleteKeysByReference this reference =
     promise_then
       (promise_then (Await GetNamespace) (\<lambda>namespace.
          with_namespace namespace (\<lambda>ns.
            (let referenceKeys = map (\<lambda>segment. referenceKey this segment reference)
                                   (js_split CHR ''|'' ns);
                 promises = map (\<lambda>referenceKey'. deleteValues this referenceKey') referenceKeys
             in promise_then (promise_all promises) (\<lambda>_. Await (DEL referenceKeys))))))
       (\<lambda>_. Settled (Inr Undefined))"

definition deleteForeverKeys :: "cache \<Rightarrow> task" where
  "deleteForeverKeys this = deleteKeysByReference this REFERENCE_KEY_FOREVER"

definition deleteStandardKeys :: "cache \<Rightarrow> task" where
  "deleteStandardKeys this = deleteKeysByReference this REFERENCE_KEY_STANDARD"

definition flush :: "cache \<Rightarrow> task" where
  "flush this =
     promise_then (promise_all [deleteForeverKeys this, deleteStandardKeys this])
       (\<lambda>_. Await SuperFlush)"

subsection \<open>Notions used in the statements\<close>

fun cmd_key :: "cmd \<Rightarrow> key" where
  "cmd_key (SADD k m) = k"

text \<open>Every \<^verbatim>\<open>sadd\<close> of a pipeline goes to a reference key of the given class.\<close>

definition indexes_only :: "cache \<Rightarrow> string \<Rightarrow> call \<Rightarrow> bool" where
  "indexes_only this reference c =
     (\<forall>cs k m. c = EXEC cs \<longrightarrow> SADD k m \<in> set cs \<longrightarrow>
        (\<exists>segment. k = referenceKey this segment reference))"

definition standard_only :: "cache \<Rightarrow> call \<Rightarrow> bool" where
  "standard_only this c =
     (\<forall>cs k m. c = EXEC cs \<longrightarrow> SADD k m \<in> set cs \<longrightarrow>
        (\<exists>segment. k = referenceKey this segment REFERENCE_KEY_STANDARD) \<and>
        (\<forall>segment. k \<noteq> referenceKey this segment REFERENCE_KEY_FOREVER))"

text \<open>The subtree at a path, following the same addresses as \<open>target\<close>; the first
  part of a \<open>Chained\<close> promise, which is settled history, is at index \<open>0\<close>.\<close>

fun subtask :: "path \<Rightarrow> task \<Rightarrow> task option" where
  "subtask [] t = Some t"
| "subtask (0 # p) (Then t f) = subtask p t"
| "subtask (0 # p) (Chained t u) = subtask p t"
| "subtask (Suc 0 # p) (Chained t u) = subtask p u"
| "subtask (i # p) (Par limit ts oc) = (if i < length ts then subtask p (ts ! i) else None)"
| "subtask p t = None"

text \<open>The calls a promise tree still holds, in flight or queued.\<close>

fun planned :: "task \<Rightarrow> call list" where
  "planned (Settled r) = []"
| "planned (Await c) = [c]"
| "planned Diverged = []"
| "planned (Queued t) = planned t"
| "planned (Then t f) = planned t"
| "planned (Chained t u) = planned t @ planned u"
| "planned (Par l ts oc) = concat (map planned ts)"

text \<open>A queued mapper call, once made.\<close>

fun started :: "task \<Rightarrow> task" where
  "started (Queued t) = t"
| "started t = t"

text \<open>
  The promises of \<^verbatim>\<open>Promise.map(chunks, chunk => this.store.del(chunk), {concurrency: 100})\<close>:
  the mapper call for a chunk with keys \<open>ks\<close> is queued, or its \<^verbatim>\<open>del\<close> is in flight, or
  it is settled. \<open>pool_ok\<close> is what holds of the children and the outcome of the map
  while it runs, \<open>finished\<close> are the deletes that have completed, with their replies.
\<close>

definition del_slot :: "key list \<Rightarrow> task \<Rightarrow> bool" where
  "del_slot ks t = (t = Queued (Await (DEL ks)) \<or> t = Await (DEL ks) \<or> (\<exists>r. t = Settled r))"

definition pool_ok :: "key list list \<Rightarrow> task list \<Rightarrow> result option \<Rightarrow> bool" where
  "pool_ok kss cs oc =
     (list_all2 del_slot kss cs \<and> length (filter active cs) \<le> 100 \<and>
      ((\<forall>e. oc \<noteq> Some (Inl e)) \<longrightarrow> oc = join cs))"

fun slot_event :: "key list \<times> task \<Rightarrow> (call \<times> result) list" where
  "slot_event (ks, Settled r) = [(DEL ks, r)]"
| "slot_event (ks, t) = []"

definition finished :: "key list list \<Rightarrow> task list \<Rightarrow> (call \<times> result) list" where
  "finished kss cs = concat (map slot_event (zip kss cs))"

text \<open>A state of \<^verbatim>\<open>deleteValues\<close> after the members have been read: \<open>A\<close> is the settled
  history of the first two \<^verbatim>\<open>then\<close>s, \<open>cs\<close> and \<open>oc\<close> are the children and the outcome of
  the map.\<close>

definition dv_pool :: "task \<Rightarrow> task list \<Rightarrow> result option \<Rightarrow> task" where
  "dv_pool A cs oc =
     promise_then (Chained A (Par (Some 100) cs oc)) (\<lambda>_. Settled (Inr Undefined))"

text \<open>The list \<^verbatim>\<open>smembers\<close> returns for a key: the members in the store's order, none
  for a key that is absent.\<close>

definition membership :: "store \<Rightarrow> key \<Rightarrow> string list" where
  "membership s k = (case s k of Some (SetValue ms) \<Rightarrow> ms | _ \<Rightarrow> [])"

text \<open>The children of the map when it is created from the chunks with keys \<open>kss\<close>.\<close>

definition initial_pool :: "key list list \<Rightarrow> task list" where
  "initial_pool kss = drain 100 (map (\<lambda>ks. Queued (Await (DEL ks))) kss)"

text \<open>The chunks \<^verbatim>\<open>deleteValues\<close> makes of a membership \<open>ms\<close>, and the keys of the
  \<^verbatim>\<open>del\<close> sent for each chunk.\<close>

definition chunks_of :: "string list \<Rightarrow> val list list" where
  "chunks_of ms = (case chunkArray (new_Set (map Str ms)) 1000 of Some chs \<Rightarrow> chs | None \<Rightarrow> [])"

definition chunk_keys :: "string list \<Rightarrow> key list list" where
  "chunk_keys ms = map (map string_of) (chunks_of ms)"

text \<open>A promise with no call in flight at any path.\<close>

definition inert :: "task \<Rightarrow> bool" where
  "inert t = (\<forall>p. target p t = None)"


text \<open>The states of a \<^verbatim>\<open>deleteValues(referenceKey)\<close> wherever it runs.\<close>

definition dv_state :: "cache \<Rightarrow> key \<Rightarrow> task \<Rightarrow> bool" where
  "dv_state this rk t =
     (t = deleteValues this rk \<or>
      ((\<exists>e. outcome t = Some (Inl e)) \<and> inert t) \<or>
      (\<exists>A kss cs oc. t = dv_pool A cs oc \<and> planned A = [] \<and> pool_ok kss cs oc))"

text \<open>The outcome \<open>oc\<close> of a \<^verbatim>\<open>Promise.all\<close> agrees with its children \<open>ts\<close>: pending while
  none is rejected and not all are fulfilled, fulfilled with their values, or rejected with
  the error of a rejected child.\<close>

definition group_ok :: "task list \<Rightarrow> result option \<Rightarrow> bool" where
  "group_ok ts oc =
     (case oc of
        None \<Rightarrow> join ts = None
      | Some (Inr v) \<Rightarrow> join ts = Some (Inr v)
      | Some (Inl e) \<Rightarrow> (\<exists>t\<in>set ts. outcome t = Some (Inl e)))"

text \<open>The reference keys of a namespace for a class, in the order of the segments.\<close>

definition refkeys :: "cache \<Rightarrow> string \<Rightarrow> string \<Rightarrow> key list" where
  "refkeys this reference ns =
     map (\<lambda>segment. referenceKey this segment reference) (js_split CHR ''|'' ns)"

text \<open>
  A state of \<^verbatim>\<open>deleteKeysByReference\<close> after the namespace has arrived: \<open>N\<close> is the settled
  namespace promise, \<open>ds\<close> and \<open>oc\<close> are the \<^verbatim>\<open>deleteValues\<close> promises and the outcome of
  their \<^verbatim>\<open>Promise.all\<close>, and \<open>u\<close> is the promise of \<^verbatim>\<open>this.store.del(...referenceKeys)\<close>,
  which exists once the \<^verbatim>\<open>Promise.all\<close> is fulfilled.
\<close>

definition dkr_tree :: "task \<Rightarrow> key list \<Rightarrow> task list \<Rightarrow> result option \<Rightarrow> task \<Rightarrow> task" where
  "dkr_tree N rks ds oc u =
     promise_then
       (Chained N
          (case oc of
             Some (Inr v) \<Rightarrow> Chained (Par None ds oc) u
           | _ \<Rightarrow> Then (Par None ds oc) (\<lambda>_. Await (DEL rks))))
       (\<lambda>_. Settled (Inr Undefined))"

text \<open>The callback that \<^verbatim>\<open>deleteKeysByReference\<close> gives to the namespace promise.\<close>

definition dkr_callback :: "cache \<Rightarrow> string \<Rightarrow> val \<Rightarrow> task" where
  "dkr_callback this reference namespace =
     with_namespace namespace (\<lambda>ns.
       (let referenceKeys = map (\<lambda>segment. referenceKey this segment reference)
                              (js_split CHR ''|'' ns);
            promises = map (\<lambda>referenceKey'. deleteValues this referenceKey') referenceKeys
        in promise_then (promise_all promises) (\<lambda>_. Await (DEL referenceKeys))))"

definition dkr_ok :: "cache \<Rightarrow> key list \<Rightarrow> task list \<Rightarrow> result option \<Rightarrow> task \<Rightarrow> bool" where
  "dkr_ok this rks ds oc u =
     (list_all2 (dv_state this) rks ds \<and> group_ok ds oc \<and>
      (u = Await (DEL rks) \<or> ((\<exists>v. oc = Some (Inr v)) \<and> (\<exists>r. u = Settled r))))"

text \<open>In a state of \<^verbatim>\<open>deleteKeysByReference\<close>: the array \<^verbatim>\<open>promises\<close> of the
  \<^verbatim>\<open>deleteValues\<close> calls, and the promise of \<^verbatim>\<open>this.store.del(...referenceKeys)\<close> if that
  call has been made.\<close>

definition dkr_promises :: "task \<Rightarrow> task list" where
  "dkr_promises t = (case subtask [0, 1, 0] t of Some (Par l ds oc) \<Rightarrow> ds | _ \<Rightarrow> [])"

definition dkr_del :: "task \<Rightarrow> task option" where
  "dkr_del t = subtask [0, 1, 1] t"

text \<open>
  The states of \<^verbatim>\<open>deleteKeysByReference(reference)\<close> started in the world \<open>w0\<close>: the
  namespace is in flight; or it has failed or is not a string; or it has arrived as \<open>ns\<close>
  and the state is a \<open>dkr_tree\<close> over the reference keys of \<open>ns\<close>. In that tree the promise
  of \<^verbatim>\<open>this.store.del(...referenceKeys)\<close> is settled only by the reply to that call, which
  is then in the log; after a successful reply the reference keys are absent.
\<close>

definition dkr_inv :: "cache \<Rightarrow> string \<Rightarrow> world \<Rightarrow> task \<times> world \<Rightarrow> bool" where
  "dkr_inv this reference w0 c =
     (length (log w0) \<le> length (log (snd c)) \<and>
      ((fst c = deleteKeysByReference this reference \<and> snd c = w0) \<or>
       ((\<exists>e. outcome (fst c) = Some (Inl e)) \<and> inert (fst c) \<and>
        dkr_promises (fst c) = [] \<and> dkr_del (fst c) = None \<and>
        (\<forall>ns. fst (perform this GetNamespace w0) \<noteq> Inr (Str ns))) \<or>
       (\<exists>ns N ds oc u.
          fst (perform this GetNamespace w0) = Inr (Str ns) \<and>
          fst c = dkr_tree N (refkeys this reference ns) ds oc u \<and>
          dkr_ok this (refkeys this reference ns) ds oc u \<and>
          (\<forall>r. u = Settled r \<longrightarrow>
             (DEL (refkeys this reference ns), r) \<in> set (completed w0 (snd c)) \<and>
             (\<forall>v. r = Inr v \<longrightarrow>
                (\<forall>rk\<in>set (refkeys this reference ns). kv (snd c) (prefixed this rk) = None))))))"

text \<open>
  What holds of a member \<open>fk\<close> of every reference set of the namespace, while
  \<^verbatim>\<open>deleteKeysByReference\<close> runs without a rejection: the key that a \<^verbatim>\<open>del\<close> of \<open>fk\<close>
  reaches, \<open>prefixed this fk\<close>, is gone from the store, or a \<^verbatim>\<open>del\<close> that names \<open>fk\<close> is still
  to complete, or no set has been read yet and all still hold \<open>fk\<close>. Once the final
  \<^verbatim>\<open>del\<close> has succeeded the reference keys are gone.
\<close>

definition completeness_inv ::
    "cache \<Rightarrow> string \<Rightarrow> string \<Rightarrow> key \<Rightarrow> world \<Rightarrow> task \<times> world \<Rightarrow> bool" where
  "completeness_inv this reference ns fk w0 c =
     ((\<exists>e. outcome (fst c) = Some (Inl e)) \<or>
      (fst c = deleteKeysByReference this reference \<and> snd c = w0) \<or>
      (\<exists>N ds oc u.
         fst c = dkr_tree N (refkeys this reference ns) ds oc u \<and>
         dkr_ok this (refkeys this reference ns) ds oc u \<and>
         (kv (snd c) (prefixed this fk) = None \<or>
          (\<exists>d\<in>set ds. \<exists>ks. DEL ks \<in> set (planned d) \<and> fk \<in> set ks) \<or>
          (ds = map (deleteValues this) (refkeys this reference ns) \<and>
           (\<forall>rk\<in>set (refkeys this reference ns).
              fk \<in> members (kv (snd c)) (prefixed this rk)))) \<and>
         (\<forall>v. u = Settled (Inr v) \<longrightarrow>
            (\<forall>rk\<in>set (refkeys this reference ns). kv (snd c) (prefixed this rk) = None))))"

text \<open>
  The states of \<^verbatim>\<open>deleteKeysByReference\<close> started in a world \<open>w0\<close> without transport
  failures, when the reference set of every segment is absent or empty: every call made so
  far is the namespace lookup, a read of a reference set or the \<^verbatim>\<open>del\<close> of the reference
  keys, and has succeeded; every \<^verbatim>\<open>deleteValues\<close> promise is waiting for its read or is
  fulfilled; and the final \<^verbatim>\<open>del\<close> is not yet answered or has succeeded.
\<close>

definition empty_sets_inv ::
    "cache \<Rightarrow> string \<Rightarrow> string \<Rightarrow> world \<Rightarrow> task \<times> world \<Rightarrow> bool" where
  "empty_sets_inv this reference ns w0 c =
     ((\<forall>n. faulty (snd c) n = None) \<and>
      (\<forall>rk\<in>set (refkeys this reference ns).
         membership (kv (snd c)) (prefixed this rk) = [] \<and>
         \<not> holds_string (kv (snd c)) (prefixed this rk)) \<and>
      (\<exists>es. log (snd c) = log w0 @ es \<and>
         (\<forall>e\<in>set es.
            (fst e = GetNamespace \<or> fst e \<in> SMEMBERS ` set (refkeys this reference ns) \<or>
             fst e = DEL (refkeys this reference ns)) \<and>
            (\<exists>v. snd e = Inr v))) \<and>
      ((fst c = deleteKeysByReference this reference \<and> snd c = w0) \<or>
       (\<exists>N ds oc u.
          fst c = dkr_tree N (refkeys this reference ns) ds oc u \<and>
          dkr_ok this (refkeys this reference ns) ds oc u \<and>
          (\<forall>i<length ds.
             ds ! i = deleteValues this (refkeys this reference ns ! i) \<or> fulfilled (ds ! i)) \<and>
          (u = Await (DEL (refkeys this reference ns)) \<or>
           (\<exists>v. u = Settled (Inr v) \<and>
                (DEL (refkeys this reference ns), Inr v) \<in> set (completed w0 (snd c)) \<and>
                (\<forall>rk\<in>set (refkeys this reference ns).
                   kv (snd c) (prefixed this rk) = None))))))"

text \<open>A concrete cache and an empty, fault-free world, for the examples.\<close>

definition example_cache :: cache where
  "example_cache =
     \<lparr>tagPrefix = ''tag:'', keyPrefix = ''cache:'', sha1 = (\<lambda>s. ''#'' @ s),
      getNamespace = (\<lambda>s. (Inr (Str ''users|premium''), s)),
      super = (\<lambda>c s. (Inr Undefined, s))\<rparr>"

text \<open>A world written through that client, whose prefix is \<^verbatim>\<open>cache:\<close>: the entries of
  \<^verbatim>\<open>u:42\<close> and \<^verbatim>\<open>u:7\<close> were stored as \<^verbatim>\<open>#users|premium:u:42\<close> and
  \<^verbatim>\<open>#users|premium:u:7\<close>, so the server has them under those names with the prefix, which
  are their full keys; \<^verbatim>\<open>u:42\<close> is indexed under both segments of \<^verbatim>\<open>users|premium\<close> in the
  Standard class, and \<^verbatim>\<open>u:7\<close> under \<^verbatim>\<open>users\<close> only; the first set lists a member twice.\<close>

definition example_world :: world where
  "example_world =
     \<lparr>kv = [''cache:tag:users:standard_ref'' \<mapsto>
                 SetValue [''cache:#users|premium:u:42'', ''cache:#users|premium:u:7'',
                           ''cache:#users|premium:u:42''],
             ''cache:tag:premium:standard_ref'' \<mapsto> SetValue [''cache:#users|premium:u:42''],
             ''cache:#users|premium:u:42'' \<mapsto> StringValue ''a'',
             ''cache:#users|premium:u:7'' \<mapsto> StringValue ''b''],
      log = [], faulty = (\<lambda>n. None)\<rparr>"

text \<open>The same world, where the fourth call fails in transport.\<close>

definition faulty_world :: world where
  "faulty_world = example_world\<lparr>faulty := (\<lambda>n. if n = 3 then Some StoreUnavailable else None)\<rparr>"

definition empty_world :: world where
  "empty_world = \<lparr>kv = Map.empty, log = [], faulty = (\<lambda>n. None)\<rparr>"

section \<open>Properties\<close>

subsection \<open>Executions in general\<close>

lemma target_Settled [simp]: "target p (Settled r) = None"
  by (cases p) auto

lemma target_Queued [simp]: "target p (Queued t) = None"
  by (cases p) auto

lemma target_Diverged [simp]: "target p Diverged = None"
  by (cases p) auto

lemma target_Await [simp]: "target p (Await c) = Some c' \<longleftrightarrow> p = [] \<and> c' = c"
  by (cases p) auto

lemma target_Then [simp]:
  "target p (Then t f) = Some c' \<longleftrightarrow> (\<exists>q. p = 0 # q \<and> target q t = Some c')"
proof (cases p)
  case Nil then show ?thesis by simp
next
  case (Cons i q) then show ?thesis by (cases i) auto
qed

lemma target_Chained [simp]:
  "target p (Chained t u) = Some c' \<longleftrightarrow> (\<exists>q. p = Suc 0 # q \<and> target q u = Some c')"
proof (cases p)
  case Nil then show ?thesis by simp
next
  case (Cons i q)
  show ?thesis
  proof (cases i)
    case 0 with Cons show ?thesis by simp
  next
    case (Suc j) with Cons show ?thesis by (cases j) auto
  qed
qed

lemma target_Par [simp]:
  "target p (Par l ts oc) = Some c' \<longleftrightarrow>
     (\<exists>i q. p = i # q \<and> i < length ts \<and> target q (ts ! i) = Some c')"
  by (cases p) auto

lemma perform_log:
  "perform this c w = (r, w') \<Longrightarrow> log w' = log w @ [(c, r)] \<and> faulty w' = faulty w"
  by (auto simp: perform_def split: option.splits prod.splits)

lemma fire_cases:
  assumes "fire this p t w = (t', w')"
  shows "(target p t = None \<and> t' = t \<and> w' = w) \<or>
         (\<exists>c r. target p t = Some c \<and> perform this c w = (r, w') \<and> t' = deliver p r t)"
  using assms by (auto simp: fire_def split: option.splits prod.splits)

lemma target_inflight: "target p t = Some c \<Longrightarrow> c \<in> set (inflight t)"
proof (induction p t rule: target.induct)
  case (4 i p limit ts oc)
  then show ?case by (auto split: if_splits dest: nth_mem)
qed auto

lemma all_calls_Par [simp]: "all_calls P (Par l ts oc) = (\<forall>t\<in>set ts. all_calls P t)"
  by (simp add: list_all_iff)

declare all_calls.simps(7) [simp del]

lemma all_calls_inflight: "all_calls P t \<Longrightarrow> c \<in> set (inflight t) \<Longrightarrow> P c"
  by (induction t) auto

lemma all_calls_promise_then:
  "all_calls P t \<Longrightarrow> (\<And>v. all_calls P (f v)) \<Longrightarrow> all_calls P (promise_then t f)"
  by (auto simp: promise_then_def split: option.splits sum.splits)

lemma all_calls_drain:
  "\<forall>t\<in>set ts. all_calls P t \<Longrightarrow> \<forall>t\<in>set (drain n ts). all_calls P t"
  by (induction n ts rule: drain.induct) (auto split: if_splits)

lemma all_calls_refill:
  "\<forall>t\<in>set ts. all_calls P t \<Longrightarrow> \<forall>t\<in>set (refill l ts). all_calls P t"
proof -
  assume a: "\<forall>t\<in>set ts. all_calls P t"
  show ?thesis
  proof (cases l)
    case None with a show ?thesis by (simp add: refill_def)
  next
    case (Some n)
    from a have "\<forall>t\<in>set (rev ts). all_calls P t" by simp
    from all_calls_drain[OF this] show ?thesis using Some by (simp add: refill_def)
  qed
qed

lemma all_calls_settle:
  "\<forall>t\<in>set ts. all_calls P t \<Longrightarrow> all_calls P (settle l ts oc)"
  using all_calls_refill[of ts P l]
  by (auto simp: settle_def Let_def split: option.splits)

lemma all_calls_deliver: "all_calls P t \<Longrightarrow> all_calls P (deliver p r t)"
proof (induction p r t rule: deliver.induct)
  case (2 p r t f)
  then show ?case by (auto intro: all_calls_promise_then)
next
  case (4 i p r limit ts oc)
  show ?case
  proof (cases "i < length ts")
    case True
    with 4 have "all_calls P (deliver p r (ts ! i))" by auto
    with 4(2) have "\<forall>t\<in>set (ts[i := deliver p r (ts ! i)]). all_calls P t"
      by (auto dest!: set_update_subset_insert[THEN subsetD])
    from all_calls_settle[OF this] True show ?thesis by simp
  next
    case False with 4 show ?thesis by simp
  qed
qed auto

lemma fire_all_calls:
  assumes "all_calls P t" "fire this p t w = (t', w')"
  shows "all_calls P t' \<and> (\<forall>c\<in>set (map fst (completed w w')). P c)"
  using fire_cases[OF assms(2)] assms(1)
  by (auto simp: completed_def all_calls_deliver dest!: perform_log dest: target_inflight all_calls_inflight)

lemma fire_log_mono:
  assumes "fire this p t w = (t', w')"
  shows "\<exists>es. log w' = log w @ es"
  using fire_cases[OF assms] by (auto dest!: perform_log)

lemma run_log_mono: "run this ps (t, w) = (t', w') \<Longrightarrow> \<exists>es. log w' = log w @ es"
proof (induction ps arbitrary: t w)
  case Nil then show ?case by simp
next
  case (Cons p ps)
  obtain t1 w1 where f: "fire this p t w = (t1, w1)" by force
  with Cons.prems have "run this ps (t1, w1) = (t', w')" by simp
  from Cons.IH[OF this] fire_log_mono[OF f] show ?case by auto
qed

lemma run_all_calls:
  assumes "all_calls P t" "run this ps (t, w) = (t', w')"
  shows "all_calls P t' \<and> (\<forall>c\<in>set (map fst (completed w w')). P c)"
  using assms
proof (induction ps arbitrary: t w)
  case Nil then show ?case by (simp add: completed_def)
next
  case (Cons p ps)
  obtain t1 w1 where f: "fire this p t w = (t1, w1)" by force
  with Cons.prems have r: "run this ps (t1, w1) = (t', w')" by simp
  from fire_all_calls[OF Cons.prems(1) f] have a1: "all_calls P t1"
    and c1: "\<forall>c\<in>set (map fst (completed w w1)). P c" by auto
  from Cons.IH[OF a1 r] have a2: "all_calls P t'"
    and c2: "\<forall>c\<in>set (map fst (completed w1 w')). P c" by auto
  from fire_log_mono[OF f] obtain e1 where e1: "log w1 = log w @ e1" by auto
  from run_log_mono[OF r] obtain e2 where e2: "log w' = log w1 @ e2" by auto
  have "completed w w' = completed w w1 @ completed w1 w'"
    using e1 e2 by (simp add: completed_def)
  with a2 c1 c2 show ?case by auto
qed

theorem calls_made_all_calls:
  assumes "all_calls P t"
  shows "\<forall>c\<in>set (calls_made w (run this ps (t, w))). P c"
proof -
  obtain t' w' where r: "run this ps (t, w) = (t', w')" by force
  from run_all_calls[OF assms r] show ?thesis
    by (auto simp: calls_made_def r dest: all_calls_inflight)
qed

subsection \<open>Keys, segments and the pipeline\<close>

lemma foldl_snoc_map: "foldl (\<lambda>acc x. acc @ [g x]) acc xs = acc @ map g xs"
  by (induction xs arbitrary: acc) auto

lemma pushKeys_eq:
  "pushKeys this ns k reference =
     Await (EXEC (map (\<lambda>segment. SADD (referenceKey this segment reference) (fullKey this ns k))
                      (js_split CHR ''|'' ns)))"
  by (simp add: pushKeys_def Let_def foldl_snoc_map)

lemma referenceKey_classes_differ:
  "referenceKey this s REFERENCE_KEY_STANDARD \<noteq> referenceKey this s' REFERENCE_KEY_FOREVER"
proof
  assume "referenceKey this s REFERENCE_KEY_STANDARD = referenceKey this s' REFERENCE_KEY_FOREVER"
  then have "s @ '':standard_ref'' = s' @ '':forever_ref''"
    by (simp add: referenceKey_def REFERENCE_KEY_STANDARD_def REFERENCE_KEY_FOREVER_def)
  then have "rev (s @ '':standard_ref'') = rev (s' @ '':forever_ref'')" by simp
  then show False by simp
qed

lemma prefixed_inj [simp]: "prefixed this a = prefixed this b \<longleftrightarrow> a = b"
  by (simp add: prefixed_def)

lemma prefixed_cmd_mem [simp]:
  "SADD (prefixed this k) m \<in> prefixed_cmd this ` S \<longleftrightarrow> SADD k m \<in> S"
proof
  assume "SADD (prefixed this k) m \<in> prefixed_cmd this ` S"
  then obtain c where c: "c \<in> S" "SADD (prefixed this k) m = prefixed_cmd this c" by auto
  obtain k' m' where "c = SADD k' m'" by (cases c)
  with c show "SADD k m \<in> S" by simp
next
  assume "SADD k m \<in> S"
  then have "prefixed_cmd this (SADD k m) \<in> prefixed_cmd this ` S" by (rule imageI)
  then show "SADD (prefixed this k) m \<in> prefixed_cmd this ` S" by simp
qed

lemma cmd_key_prefixed: "cmd_key (prefixed_cmd this c) = prefixed this (cmd_key c)"
  by (cases c) simp

lemma js_split_nonempty: "js_split sep s \<noteq> []"
  by (induction s) (auto split: list.splits)

lemma sadd_other: "k' \<noteq> k \<Longrightarrow> snd (sadd k m s) k' = s k'"
  by (auto simp: sadd_def split: option.splits stored.splits)

lemma sadd_string: "s k' = Some (StringValue v) \<Longrightarrow> snd (sadd k m s) k' = Some (StringValue v)"
  by (auto simp: sadd_def split: option.splits stored.splits)

lemma sadd_members:
  "\<not> holds_string s k \<Longrightarrow> members (snd (sadd k m s)) k = insert m (members s k)"
  by (auto simp: sadd_def members_def holds_string_def split: option.splits stored.splits)

lemma sadd_holds_string: "holds_string (snd (sadd k m s)) k' = holds_string s k'"
  by (auto simp: sadd_def holds_string_def split: option.splits stored.splits)

lemma sadd_members_other: "k' \<noteq> k \<Longrightarrow> members (snd (sadd k m s)) k' = members s k'"
  by (simp add: members_def sadd_other)

lemma exec_pipeline_Cons:
  "exec_pipeline (SADD k m # cs) s =
     (fst (sadd k m s) # fst (exec_pipeline cs (snd (sadd k m s))),
      snd (exec_pipeline cs (snd (sadd k m s))))"
  by (simp add: split_def Let_def)

lemma exec_pipeline_other:
  "k' \<notin> cmd_key ` set cs \<Longrightarrow> snd (exec_pipeline cs s) k' = s k'"
proof (induction cs arbitrary: s)
  case Nil then show ?case by simp
next
  case (Cons c cs)
  obtain k m where c: "c = SADD k m" by (cases c)
  with Cons.prems have "k' \<noteq> k" "k' \<notin> cmd_key ` set cs" by auto
  with Cons.IH[of "snd (sadd k m s)"] c show ?case
    by (simp add: exec_pipeline_Cons sadd_other del: exec_pipeline.simps)
qed

lemma exec_pipeline_string:
  "s k' = Some (StringValue v) \<Longrightarrow> snd (exec_pipeline cs s) k' = Some (StringValue v)"
proof (induction cs arbitrary: s)
  case Nil then show ?case by simp
next
  case (Cons c cs)
  obtain k m where c: "c = SADD k m" by (cases c)
  have "snd (sadd k m s) k' = Some (StringValue v)"
    using Cons.prems by (rule sadd_string)
  with Cons.IH[of "snd (sadd k m s)"] c show ?case
    by (simp add: exec_pipeline_Cons del: exec_pipeline.simps)
qed

lemma exec_pipeline_members:
  "\<not> holds_string s k \<Longrightarrow>
     members (snd (exec_pipeline cs s)) k = members s k \<union> {m. SADD k m \<in> set cs}"
proof (induction cs arbitrary: s)
  case Nil then show ?case by simp
next
  case (Cons c cs)
  obtain k' m where c: "c = SADD k' m" by (cases c)
  let ?s = "snd (sadd k' m s)"
  have ns: "\<not> holds_string ?s k" using Cons.prems by (simp add: sadd_holds_string)
  have m1: "members ?s k = (if k = k' then insert m (members s k) else members s k)"
    using sadd_members[OF Cons.prems, of m] sadd_members_other[of k k' m s] by auto
  have "members (snd (exec_pipeline (c # cs) s)) k = members ?s k \<union> {m. SADD k m \<in> set cs}"
    using Cons.IH[OF ns] c by (simp add: exec_pipeline_Cons del: exec_pipeline.simps)
  also have "\<dots> = members s k \<union> {m. SADD k m \<in> set (c # cs)}"
    unfolding m1 c by auto
  finally show ?case .
qed

subsection \<open>Reference keys\<close>

text \<open>
  C4. For every segment \<open>s\<close>, the reference key is the tag prefix, then \<open>s\<close>, then a
  colon, then the token of the expiration class: \<^verbatim>\<open>forever_ref\<close> for the Forever class and
  \<^verbatim>\<open>standard_ref\<close> for the Standard class. For the namespace \<^verbatim>\<open>users|premium\<close> and the
  Standard class the two reference keys are the prefix followed by
  \<^verbatim>\<open>users:standard_ref\<close> and by \<^verbatim>\<open>premium:standard_ref\<close>.
\<close>

theorem referenceKey_format:
  "referenceKey this s REFERENCE_KEY_FOREVER = tagPrefix this @ s @ '':'' @ ''forever_ref'' \<and>
   referenceKey this s REFERENCE_KEY_STANDARD = tagPrefix this @ s @ '':'' @ ''standard_ref'' \<and>
   map (\<lambda>segment. referenceKey this segment REFERENCE_KEY_STANDARD)
       (js_split CHR ''|'' ''users|premium'') =
     [tagPrefix this @ ''users:standard_ref'', tagPrefix this @ ''premium:standard_ref'']"
  by (simp add: referenceKey_def REFERENCE_KEY_FOREVER_def REFERENCE_KEY_STANDARD_def)

lemma run_Settled [simp]: "run this ps (Settled r, w) = (Settled r, w)"
  by (induction ps) (auto simp: fire_def)

lemma run_Await:
  "run this ps (Await c, w) = (Await c, w) \<or>
   run this ps (Await c, w) = (Settled (fst (perform this c w)), snd (perform this c w))"
proof (induction ps)
  case Nil then show ?case by simp
next
  case (Cons p ps)
  show ?case
  proof (cases p)
    case Nil
    then show ?thesis by (simp add: fire_def split_def Let_def)
  next
    case (Cons i q)
    with Cons.IH show ?thesis by (simp add: fire_def)
  qed
qed

lemma perform_faulty:
  "faulty w (length (log w)) = Some e \<Longrightarrow> perform this c w = (Inl e, w\<lparr>log := log w @ [(c, Inl e)]\<rparr>)"
  by (simp add: perform_def)

lemma perform_ok:
  "faulty w (length (log w)) = None \<Longrightarrow>
   perform this c w = (fst (apply_call this c (kv w)),
                       w\<lparr>kv := snd (apply_call this c (kv w)),
                         log := log w @ [(c, fst (apply_call this c (kv w)))]\<rparr>)"
  by (simp add: perform_def split_def Let_def)

lemma perform_EXEC_kv:
  "kv (snd (perform this (EXEC cs) w)) = kv w \<or>
   kv (snd (perform this (EXEC cs) w)) = snd (exec_pipeline (map (prefixed_cmd this) cs) (kv w))"
  by (cases "faulty w (length (log w))") (simp_all add: perform_faulty perform_ok split_def Let_def)

lemma perform_EXEC_ok:
  "fst (perform this (EXEC cs) w) = Inr v \<Longrightarrow>
   kv (snd (perform this (EXEC cs) w)) = snd (exec_pipeline (map (prefixed_cmd this) cs) (kv w))"
  by (cases "faulty w (length (log w))") (simp_all add: perform_faulty perform_ok split_def Let_def)

lemma completed_perform: "completed w (snd (perform this c w)) = [(c, fst (perform this c w))]"
  using perform_log[of this c w "fst (perform this c w)" "snd (perform this c w)"]
  by (simp add: completed_def)

lemma completed_same [simp]: "completed w w = []"
  by (simp add: completed_def)

lemmas example_defs = example_cache_def empty_world_def REFERENCE_KEY_STANDARD_def
  REFERENCE_KEY_FOREVER_def referenceKey_def fullKey_def prefixed_def

subsection \<open>pushKeys\<close>

text \<open>
  C5. For every namespace \<open>ns\<close> and logical key \<open>k\<close>, the fully-qualified cache key that
  \<^verbatim>\<open>pushKeys\<close> records in the reference sets is the store's key prefix, then the
  \<^verbatim>\<open>sha1\<close> digest of the whole namespace string, then a colon, then \<open>k\<close>: when the batch
  completes, the set of every segment of \<open>ns\<close> has gained exactly that member. The set of
  a segment is the one the client's commands for its reference key reach.
\<close>

theorem pushKeys_records_fullKey:
  assumes "segment \<in> set (js_split CHR ''|'' ns)"
    and "faulty w (length (log w)) = None"
    and "\<not> holds_string (kv w) (prefixed this (referenceKey this segment reference))"
  shows "members (kv (snd (fire this [] (pushKeys this ns k reference) w)))
           (prefixed this (referenceKey this segment reference)) =
         members (kv w) (prefixed this (referenceKey this segment reference)) \<union>
           {keyPrefix this @ sha1 this ns @ '':'' @ k}"
proof -
  let ?cs = "map (\<lambda>segment. SADD (referenceKey this segment reference) (fullKey this ns k))
                 (js_split CHR ''|'' ns)"
  have "kv (snd (fire this [] (pushKeys this ns k reference) w)) =
          snd (exec_pipeline (map (prefixed_cmd this) ?cs) (kv w))"
    using assms(2) by (simp add: pushKeys_eq fire_def perform_ok split_def Let_def)
  moreover have "{m. SADD (referenceKey this segment reference) m \<in> set ?cs} = {fullKey this ns k}"
    using assms(1) by auto
  then have "{m. SADD (prefixed this (referenceKey this segment reference)) m \<in>
                 set (map (prefixed_cmd this) ?cs)} = {fullKey this ns k}"
    by (simp only: set_map prefixed_cmd_mem)
  ultimately show ?thesis
    using exec_pipeline_members[OF assms(3), of "map (prefixed_cmd this) ?cs"]
    by (simp only: fullKey_def)
qed

theorem pushKeys_records_fullKey_witness:
  "''users'' \<in> set (js_split CHR ''|'' ''users|premium'') \<and>
   faulty empty_world (length (log empty_world)) = None \<and>
   \<not> holds_string (kv empty_world)
       (prefixed example_cache (referenceKey example_cache ''users'' REFERENCE_KEY_STANDARD)) \<and>
   members (kv (snd (fire example_cache []
       (pushKeys example_cache ''users|premium'' ''u:42'' REFERENCE_KEY_STANDARD) empty_world)))
     ''cache:tag:users:standard_ref'' = {''cache:#users|premium:u:42''}"
  using pushKeys_records_fullKey[of "''users''" "''users|premium''" empty_world example_cache
      REFERENCE_KEY_STANDARD "''u:42''"]
  by (simp add: example_defs holds_string_def members_def)

text \<open>
  C6. \<^verbatim>\<open>pushKeys\<close> splits the namespace at \<^verbatim>\<open>|\<close> and queues one \<^verbatim>\<open>sadd\<close> of the
  fully-qualified key per segment, repeated segments included, and submits them as one
  pipeline: that batch is the only call it ever makes, in every execution. Keys of the
  store other than those the commands for the reference keys reach keep their contents, a
  string value is never changed, and where the batch succeeds each reference set is the old
  set with the key added.
\<close>

theorem pushKeys_single_batch:
  "inflight (pushKeys this ns k reference) =
     [EXEC (map (\<lambda>segment. SADD (referenceKey this segment reference) (fullKey this ns k))
                (js_split CHR ''|'' ns))] \<and>
   calls_made w (run this sched (pushKeys this ns k reference, w)) =
     [EXEC (map (\<lambda>segment. SADD (referenceKey this segment reference) (fullKey this ns k))
                (js_split CHR ''|'' ns))] \<and>
   (\<forall>k'. k' \<notin> (\<lambda>segment. prefixed this (referenceKey this segment reference)) `
              set (js_split CHR ''|'' ns) \<longrightarrow>
      kv (snd (run this sched (pushKeys this ns k reference, w))) k' = kv w k') \<and>
   (\<forall>k' v. kv w k' = Some (StringValue v) \<longrightarrow>
      kv (snd (run this sched (pushKeys this ns k reference, w))) k' = Some (StringValue v)) \<and>
   (\<forall>segment v. segment \<in> set (js_split CHR ''|'' ns) \<longrightarrow>
      \<not> holds_string (kv w) (prefixed this (referenceKey this segment reference)) \<longrightarrow>
      outcome (fst (run this sched (pushKeys this ns k reference, w))) = Some (Inr v) \<longrightarrow>
      members (kv (snd (run this sched (pushKeys this ns k reference, w))))
          (prefixed this (referenceKey this segment reference)) =
        members (kv w) (prefixed this (referenceKey this segment reference)) \<union> {fullKey this ns k})"
proof -
  let ?cs = "map (\<lambda>segment. SADD (referenceKey this segment reference) (fullKey this ns k))
                 (js_split CHR ''|'' ns)"
  let ?w' = "snd (perform this (EXEC ?cs) w)"
  let ?r = "fst (perform this (EXEC ?cs) w)"
  let ?pcs = "map (prefixed_cmd this) ?cs"
  have keys: "cmd_key ` set ?pcs =
      (\<lambda>segment. prefixed this (referenceKey this segment reference)) ` set (js_split CHR ''|'' ns)"
    by (auto simp: image_iff)
  have other: "\<And>k'. k' \<notin> (\<lambda>segment. prefixed this (referenceKey this segment reference)) `
                         set (js_split CHR ''|'' ns)
      \<Longrightarrow> kv ?w' k' = kv w k'"
    using perform_EXEC_kv[of this ?cs w] exec_pipeline_other[of _ ?pcs "kv w"] keys by metis
  have str: "\<And>k' v. kv w k' = Some (StringValue v) \<Longrightarrow> kv ?w' k' = Some (StringValue v)"
    using perform_EXEC_kv[of this ?cs w] exec_pipeline_string[of "kv w" _ _ ?pcs] by metis
  have mem: "\<And>segment v. segment \<in> set (js_split CHR ''|'' ns) \<Longrightarrow>
      \<not> holds_string (kv w) (prefixed this (referenceKey this segment reference)) \<Longrightarrow> ?r = Inr v \<Longrightarrow>
      members (kv ?w') (prefixed this (referenceKey this segment reference)) =
        members (kv w) (prefixed this (referenceKey this segment reference)) \<union> {fullKey this ns k}"
  proof -
    fix segment v
    assume s: "segment \<in> set (js_split CHR ''|'' ns)"
      and h: "\<not> holds_string (kv w) (prefixed this (referenceKey this segment reference))"
      and r: "?r = Inr v"
    have "{m. SADD (referenceKey this segment reference) m \<in> set ?cs} = {fullKey this ns k}"
      using s by auto
    then have "{m. SADD (prefixed this (referenceKey this segment reference)) m \<in> set ?pcs} =
                 {fullKey this ns k}"
      by (simp only: set_map prefixed_cmd_mem)
    with exec_pipeline_members[OF h, of ?pcs] perform_EXEC_ok[OF r]
    show "members (kv ?w') (prefixed this (referenceKey this segment reference)) =
        members (kv w) (prefixed this (referenceKey this segment reference)) \<union> {fullKey this ns k}"
      by simp
  qed
  from run_Await[of this sched "EXEC ?cs" w]
  show ?thesis
  proof
    assume a: "run this sched (Await (EXEC ?cs), w) = (Await (EXEC ?cs), w)"
    then show ?thesis by (simp add: pushKeys_eq calls_made_def)
  next
    assume a: "run this sched (Await (EXEC ?cs), w) = (Settled ?r, ?w')"
    then show ?thesis using other str mem
      by (simp add: pushKeys_eq calls_made_def completed_perform)
  qed
qed

theorem pushKeys_single_batch_witness:
  "calls_made empty_world (run example_cache [[]]
       (pushKeys example_cache ''users|premium'' ''u:42'' REFERENCE_KEY_STANDARD, empty_world)) =
     [EXEC [SADD ''tag:users:standard_ref'' ''cache:#users|premium:u:42'',
            SADD ''tag:premium:standard_ref'' ''cache:#users|premium:u:42'']] \<and>
   kv (snd (run example_cache [[]]
       (pushKeys example_cache ''users|premium'' ''u:42'' REFERENCE_KEY_STANDARD, empty_world)))
     ''cache:#users|premium:u:42'' = None \<and>
   members (kv (snd (run example_cache [[]]
       (pushKeys example_cache ''users|premium'' ''u:42'' REFERENCE_KEY_STANDARD, empty_world))))
     ''cache:tag:premium:standard_ref'' = {''cache:#users|premium:u:42''}"
  using pushKeys_single_batch[of example_cache "''users|premium''" "''u:42''"
      REFERENCE_KEY_STANDARD empty_world "[[]]"]
  by (simp add: example_defs holds_string_def members_def pushKeys_eq fire_def perform_def
      calls_made_def completed_def sadd_def Let_def)

subsection \<open>increment, decrement and set\<close>

lemma standard_only_pushStandardKeys: "standard_only this (EXEC (map (\<lambda>segment. SADD (referenceKey this segment REFERENCE_KEY_STANDARD) m) segs))"
  using referenceKey_classes_differ by (auto simp: standard_only_def)

lemma increment_eq:
  "increment this key value =
     Par None [Then (Await GetNamespace)
                 (\<lambda>namespace. with_namespace namespace (\<lambda>ns. pushStandardKeys this ns key)),
               Await (SuperIncrement key (default_one value))] None"
  by (simp add: increment_def Let_def promise_all_def promise_then_def join_def fulfilled_def)

lemma decrement_eq:
  "decrement this key value =
     Par None [Then (Await GetNamespace)
                 (\<lambda>namespace. with_namespace namespace (\<lambda>ns. pushStandardKeys this ns key)),
               Await (SuperDecrement key (default_one value))] None"
  by (simp add: decrement_def Let_def promise_all_def promise_then_def join_def fulfilled_def)

lemma all_calls_with_namespace:
  "(\<And>ns. all_calls P (f ns)) \<Longrightarrow> all_calls P (with_namespace v f)"
  by (simp add: with_namespace_def split: val.splits)

lemma standard_only_other [simp]:
  "standard_only this GetNamespace" "standard_only this (SuperIncrement k v)"
  "standard_only this (SuperDecrement k v)"
  by (simp_all add: standard_only_def)

lemma all_calls_increment: "all_calls (standard_only this) (increment this key value)"
  by (simp add: increment_eq all_calls_with_namespace pushStandardKeys_def pushKeys_eq
      standard_only_pushStandardKeys)

lemma all_calls_decrement: "all_calls (standard_only this) (decrement this key value)"
  by (simp add: decrement_eq all_calls_with_namespace pushStandardKeys_def pushKeys_eq
      standard_only_pushStandardKeys)

lemma increment_after_namespace:
  "perform this GetNamespace w = (Inr (Str ns), w') \<Longrightarrow>
   inflight (fst (fire this [0, 0] (increment this key value) w)) =
     [EXEC (map (\<lambda>segment. SADD (referenceKey this segment REFERENCE_KEY_STANDARD) (fullKey this ns key))
                (js_split CHR ''|'' ns)),
      SuperIncrement key (default_one value)]"
  by (simp add: increment_eq promise_then_def fire_def with_namespace_def
      pushStandardKeys_def pushKeys_eq join_def settle_def fulfilled_def refill_def)

lemma decrement_after_namespace:
  "perform this GetNamespace w = (Inr (Str ns), w') \<Longrightarrow>
   inflight (fst (fire this [0, 0] (decrement this key value) w)) =
     [EXEC (map (\<lambda>segment. SADD (referenceKey this segment REFERENCE_KEY_STANDARD) (fullKey this ns key))
                (js_split CHR ''|'' ns)),
      SuperDecrement key (default_one value)]"
  by (simp add: decrement_eq promise_then_def fire_def with_namespace_def
      pushStandardKeys_def pushKeys_eq join_def settle_def fulfilled_def refill_def)

text \<open>
  C9. \<^verbatim>\<open>increment\<close> and \<^verbatim>\<open>decrement\<close> index the key under the Standard class only: in
  every execution, from every world (whatever the store holds for the key), each
  \<^verbatim>\<open>sadd\<close> they send goes to a \<^verbatim>\<open>standard_ref\<close> reference key and to no
  \<^verbatim>\<open>forever_ref\<close> key. The index operation and the primitive run concurrently: the
  namespace lookup and the superclass call are in flight together at the start, and once the
  namespace has arrived the pipeline is in flight together with the superclass call.
\<close>

theorem increment_decrement_standard_class:
  "(\<forall>c\<in>set (calls_made w (run this sched (increment this key delta, w))).
      \<forall>cs k m. c = EXEC cs \<longrightarrow> SADD k m \<in> set cs \<longrightarrow>
        (\<exists>segment. k = referenceKey this segment REFERENCE_KEY_STANDARD) \<and>
        (\<forall>segment. k \<noteq> referenceKey this segment REFERENCE_KEY_FOREVER)) \<and>
   (\<forall>c\<in>set (calls_made w (run this sched (decrement this key delta, w))).
      \<forall>cs k m. c = EXEC cs \<longrightarrow> SADD k m \<in> set cs \<longrightarrow>
        (\<exists>segment. k = referenceKey this segment REFERENCE_KEY_STANDARD) \<and>
        (\<forall>segment. k \<noteq> referenceKey this segment REFERENCE_KEY_FOREVER)) \<and>
   inflight (increment this key delta) = [GetNamespace, SuperIncrement key (default_one delta)] \<and>
   inflight (decrement this key delta) = [GetNamespace, SuperDecrement key (default_one delta)] \<and>
   (perform this GetNamespace w = (Inr (Str ns), w') \<longrightarrow>
      inflight (fst (fire this [0, 0] (increment this key delta) w)) =
        [EXEC (map (\<lambda>segment. SADD (referenceKey this segment REFERENCE_KEY_STANDARD)
                                  (fullKey this ns key))
                   (js_split CHR ''|'' ns)),
         SuperIncrement key (default_one delta)] \<and>
      inflight (fst (fire this [0, 0] (decrement this key delta) w)) =
        [EXEC (map (\<lambda>segment. SADD (referenceKey this segment REFERENCE_KEY_STANDARD)
                                  (fullKey this ns key))
                   (js_split CHR ''|'' ns)),
         SuperDecrement key (default_one delta)])"
proof -
  have i: "\<forall>c\<in>set (calls_made w (run this sched (increment this key delta, w))). standard_only this c"
    by (rule calls_made_all_calls[OF all_calls_increment])
  have d: "\<forall>c\<in>set (calls_made w (run this sched (decrement this key delta, w))). standard_only this c"
    by (rule calls_made_all_calls[OF all_calls_decrement])
  show ?thesis
    using i d increment_after_namespace[of this w ns w' key delta]
      decrement_after_namespace[of this w ns w' key delta]
    unfolding standard_only_def
    by (simp add: increment_eq decrement_eq)
qed

lemma set_item_eq:
  "set_item this key value ttl =
     Then (Await GetNamespace) (\<lambda>namespace.
       with_namespace namespace (\<lambda>ns.
         promise_all [pushKeys this ns key
                        (if truthy ttl then REFERENCE_KEY_STANDARD else REFERENCE_KEY_FOREVER),
                      Await (SuperSet key value ttl)]))"
  by (simp add: set_item_def Let_def promise_then_def)

lemma all_calls_set_item:
  "all_calls (indexes_only this (if truthy ttl then REFERENCE_KEY_STANDARD else REFERENCE_KEY_FOREVER))
     (set_item this key value ttl)"
  unfolding set_item_eq
  by (auto intro!: all_calls_with_namespace simp: promise_all_def pushKeys_eq indexes_only_def)

lemma set_item_after_namespace:
  "perform this GetNamespace w = (Inr (Str ns), w') \<Longrightarrow>
   inflight (fst (fire this [0] (set_item this key value ttl) w)) =
     [EXEC (map (\<lambda>segment. SADD (referenceKey this segment
                  (if truthy ttl then REFERENCE_KEY_STANDARD else REFERENCE_KEY_FOREVER))
                  (fullKey this ns key))
                (js_split CHR ''|'' ns)),
      SuperSet key value ttl]"
  by (simp add: set_item_eq promise_then_def fire_def with_namespace_def promise_all_def
      pushKeys_eq join_def fulfilled_def)

theorem increment_decrement_standard_class_witness:
  "calls_made empty_world (run example_cache [[0, 0], [1], [0, 1]]
       (increment example_cache ''hits'' Undefined, empty_world)) =
     [GetNamespace, SuperIncrement ''hits'' (Num 1),
      EXEC [SADD ''tag:users:standard_ref'' ''cache:#users|premium:hits'',
            SADD ''tag:premium:standard_ref'' ''cache:#users|premium:hits'']] \<and>
   (\<exists>segment. ''tag:users:standard_ref'' =
        referenceKey example_cache segment REFERENCE_KEY_STANDARD) \<and>
   (\<forall>segment. ''tag:users:standard_ref'' \<noteq>
        referenceKey example_cache segment REFERENCE_KEY_FOREVER)"
proof -
  have e1: "calls_made empty_world (run example_cache [[0, 0], [1], [0, 1]]
       (increment example_cache ''hits'' Undefined, empty_world)) =
     [GetNamespace, SuperIncrement ''hits'' (Num 1),
      EXEC [SADD ''tag:users:standard_ref'' ''cache:#users|premium:hits'',
            SADD ''tag:premium:standard_ref'' ''cache:#users|premium:hits'']]"
    by code_simp
  have "\<forall>c\<in>set (calls_made empty_world (run example_cache [[0, 0], [1], [0, 1]]
       (increment example_cache ''hits'' Undefined, empty_world))).
      \<forall>cs k m. c = EXEC cs \<longrightarrow> SADD k m \<in> set cs \<longrightarrow>
        (\<exists>segment. k = referenceKey example_cache segment REFERENCE_KEY_STANDARD) \<and>
        (\<forall>segment. k \<noteq> referenceKey example_cache segment REFERENCE_KEY_FOREVER)"
    using increment_decrement_standard_class[where w = empty_world and this = example_cache
      and sched = "[[0, 0], [1], [0, 1]]" and key = "''hits''" and delta = Undefined]
    by (rule conjunct1)
  then have "(\<exists>segment. ''tag:users:standard_ref'' =
        referenceKey example_cache segment REFERENCE_KEY_STANDARD) \<and>
   (\<forall>segment. ''tag:users:standard_ref'' \<noteq>
        referenceKey example_cache segment REFERENCE_KEY_FOREVER)"
    unfolding e1 by simp
  with e1 show ?thesis by simp
qed

text \<open>
  C10. \<^verbatim>\<open>set(key, value, ttl)\<close> chooses the class by the truthiness of \<^verbatim>\<open>ttl\<close>, not by
  its presence. For \<^verbatim>\<open>ttl\<close> undefined, null or any number: with \<^verbatim>\<open>ttl\<close> undefined, null,
  \<^verbatim>\<open>0\<close>, \<^verbatim>\<open>-0\<close> or \<^verbatim>\<open>NaN\<close> every \<^verbatim>\<open>sadd\<close> goes to a \<^verbatim>\<open>forever_ref\<close> key, and with
  every other number (a nonzero finite number or an infinity) to a \<^verbatim>\<open>standard_ref\<close> key,
  in every execution; the keys of the two classes never coincide.
\<close>

theorem set_class_by_truthiness:
  assumes "ttl = Undefined \<or> ttl = Null \<or> (\<exists>x. ttl = Num x) \<or> ttl = NegZero \<or> ttl = NaN \<or>
           (\<exists>negative. ttl = Infinity negative)"
  shows
  "(\<forall>c\<in>set (calls_made w (run this sched (set_item this key v ttl, w))).
      \<forall>cs k m. c = EXEC cs \<longrightarrow> SADD k m \<in> set cs \<longrightarrow>
        (\<exists>segment. k = referenceKey this segment
           (if ttl = Undefined \<or> ttl = Null \<or> ttl = Num 0 \<or> ttl = NegZero \<or> ttl = NaN
            then REFERENCE_KEY_FOREVER else REFERENCE_KEY_STANDARD))) \<and>
   (perform this GetNamespace w = (Inr (Str ns), w') \<longrightarrow>
      inflight (fst (fire this [0] (set_item this key v ttl) w)) =
        [EXEC (map (\<lambda>segment. SADD (referenceKey this segment
                     (if ttl = Undefined \<or> ttl = Null \<or> ttl = Num 0 \<or> ttl = NegZero \<or> ttl = NaN
                      then REFERENCE_KEY_FOREVER else REFERENCE_KEY_STANDARD))
                     (fullKey this ns key))
                   (js_split CHR ''|'' ns)),
         SuperSet key v ttl]) \<and>
   (\<forall>s s'. referenceKey this s REFERENCE_KEY_STANDARD \<noteq> referenceKey this s' REFERENCE_KEY_FOREVER)"
proof -
  have t: "(if truthy ttl then REFERENCE_KEY_STANDARD else REFERENCE_KEY_FOREVER) =
           (if ttl = Undefined \<or> ttl = Null \<or> ttl = Num 0 \<or> ttl = NegZero \<or> ttl = NaN
            then REFERENCE_KEY_FOREVER else REFERENCE_KEY_STANDARD)"
    using assms by auto
  have "\<forall>c\<in>set (calls_made w (run this sched (set_item this key v ttl, w))).
          indexes_only this (if truthy ttl then REFERENCE_KEY_STANDARD else REFERENCE_KEY_FOREVER) c"
    by (rule calls_made_all_calls[OF all_calls_set_item])
  then show ?thesis
    using set_item_after_namespace[of this w ns w' key v ttl] referenceKey_classes_differ
    unfolding t indexes_only_def by simp
qed

theorem set_class_by_truthiness_witness:
  "(Num 0 = Undefined \<or> Num 0 = Null \<or> (\<exists>x. Num 0 = Num x) \<or> Num 0 = NegZero \<or> Num 0 = NaN \<or>
      (\<exists>negative. Num 0 = Infinity negative)) \<and>
   calls_made empty_world (run example_cache [[0], [1, 0], [1, 1]]
       (set_item example_cache ''u:42'' (Str ''v'') (Num 0), empty_world)) =
     [GetNamespace,
      EXEC [SADD ''tag:users:forever_ref'' ''cache:#users|premium:u:42'',
            SADD ''tag:premium:forever_ref'' ''cache:#users|premium:u:42''],
      SuperSet ''u:42'' (Str ''v'') (Num 0)] \<and>
   (\<exists>segment. ''tag:users:forever_ref'' =
        referenceKey example_cache segment REFERENCE_KEY_FOREVER) \<and>
   calls_made empty_world (run example_cache [[0], [1, 0], [1, 1]]
       (set_item example_cache ''u:42'' (Str ''v'') NaN, empty_world)) =
     [GetNamespace,
      EXEC [SADD ''tag:users:forever_ref'' ''cache:#users|premium:u:42'',
            SADD ''tag:premium:forever_ref'' ''cache:#users|premium:u:42''],
      SuperSet ''u:42'' (Str ''v'') NaN] \<and>
   calls_made empty_world (run example_cache [[0], [1, 0], [1, 1]]
       (set_item example_cache ''u:42'' (Str ''v'') (Num (1 / 2)), empty_world)) =
     [GetNamespace,
      EXEC [SADD ''tag:users:standard_ref'' ''cache:#users|premium:u:42'',
            SADD ''tag:premium:standard_ref'' ''cache:#users|premium:u:42''],
      SuperSet ''u:42'' (Str ''v'') (Num (1 / 2))]"
proof -
  have h: "Num 0 = Undefined \<or> Num 0 = Null \<or> (\<exists>x. Num 0 = Num x) \<or> Num 0 = NegZero \<or>
           Num 0 = NaN \<or> (\<exists>negative. Num 0 = Infinity negative)" by simp
  have e1: "calls_made empty_world (run example_cache [[0], [1, 0], [1, 1]]
       (set_item example_cache ''u:42'' (Str ''v'') (Num 0), empty_world)) =
     [GetNamespace,
      EXEC [SADD ''tag:users:forever_ref'' ''cache:#users|premium:u:42'',
            SADD ''tag:premium:forever_ref'' ''cache:#users|premium:u:42''],
      SuperSet ''u:42'' (Str ''v'') (Num 0)]"
    by code_simp
  have e2: "calls_made empty_world (run example_cache [[0], [1, 0], [1, 1]]
       (set_item example_cache ''u:42'' (Str ''v'') NaN, empty_world)) =
     [GetNamespace,
      EXEC [SADD ''tag:users:forever_ref'' ''cache:#users|premium:u:42'',
            SADD ''tag:premium:forever_ref'' ''cache:#users|premium:u:42''],
      SuperSet ''u:42'' (Str ''v'') NaN]"
    by code_simp
  have e3: "calls_made empty_world (run example_cache [[0], [1, 0], [1, 1]]
       (set_item example_cache ''u:42'' (Str ''v'') (Num (1 / 2)), empty_world)) =
     [GetNamespace,
      EXEC [SADD ''tag:users:standard_ref'' ''cache:#users|premium:u:42'',
            SADD ''tag:premium:standard_ref'' ''cache:#users|premium:u:42''],
      SuperSet ''u:42'' (Str ''v'') (Num (1 / 2))]"
    by code_simp
  have "\<forall>c\<in>set (calls_made empty_world (run example_cache [[0], [1, 0], [1, 1]]
       (set_item example_cache ''u:42'' (Str ''v'') (Num 0), empty_world))).
      \<forall>cs k m. c = EXEC cs \<longrightarrow> SADD k m \<in> set cs \<longrightarrow>
        (\<exists>segment. k = referenceKey example_cache segment
           (if Num 0 = Undefined \<or> Num 0 = Null \<or> Num 0 = Num 0 \<or> Num 0 = NegZero \<or> Num 0 = NaN
            then REFERENCE_KEY_FOREVER else REFERENCE_KEY_STANDARD))"
    using set_class_by_truthiness[OF h, where w = empty_world and this = example_cache
      and sched = "[[0], [1, 0], [1, 1]]" and key = "''u:42''" and v = "Str ''v''"]
    by (rule conjunct1)
  then have "\<exists>segment. ''tag:users:forever_ref'' =
        referenceKey example_cache segment REFERENCE_KEY_FOREVER"
    unfolding e1 by simp
  with h e1 e2 e3 show ?thesis by simp
qed

subsection \<open>chunkArray\<close>

lemma chunk_count_step:
  fixes L n :: nat
  assumes "0 < n" "0 < L"
  shows "Suc ((L - n + n - 1) div n) = (L + n - 1) div n"
proof (cases "n \<le> L")
  case True
  then have "L + n - 1 = (L - 1) + n" "L - n + n - 1 = L - 1" using assms by simp_all
  then show ?thesis using assms by (metis Suc_eq_plus1 div_add_self2 less_numeral_extra(3))
next
  case False
  have a: "L - n + n - 1 = n - 1" using False by simp
  have b: "(n - 1) div n = 0" using assms by simp
  have c: "L + n - 1 = (L - 1) + n" using assms by simp
  have d: "(L - 1) div n = 0" using False by simp
  have "((L - 1) + n) div n = Suc ((L - 1) div n)" using assms
    by (metis Suc_eq_plus1 div_add_self2 less_numeral_extra(3))
  then show ?thesis unfolding a b c d by simp
qed

lemma slice_concat: "slice array i (i + n) @ drop (i + n) array = drop i array"
proof -
  have "drop (i + n) array = drop n (drop i array)" by (simp add: add.commute)
  moreover have "take n (drop i array) @ drop n (drop i array) = drop i array"
    by (rule append_take_drop_id)
  ultimately show ?thesis by (simp only: slice_def add_diff_cancel_left')
qed

lemma chunkArray_loop_total:
  assumes "0 < n"
  shows "\<exists>chs. chunkArray_loop array n i out = Some (out @ chs) \<and>
           concat chs = drop i array \<and>
           (\<forall>c\<in>set chs. 0 < length c \<and> length c \<le> n) \<and>
           length chs = (length array - i + n - 1) div n"
proof (induction "length array - i" arbitrary: i out rule: less_induct)
  case less
  show ?case
  proof (cases "i < length array")
    case False
    then have "chunkArray_loop array n i out = Some out"
      by (subst chunkArray_loop.simps) simp
    moreover have "(length array - i + n - 1) div n = 0" using False assms by simp
    ultimately show ?thesis using False by simp
  next
    case True
    let ?c = "slice array i (i + n)"
    have "length array - (i + n) < length array - i" using True assms by simp
    from less[OF this, of "out @ [?c]"] obtain chs where
      l: "chunkArray_loop array n (i + n) (out @ [?c]) = Some ((out @ [?c]) @ chs)"
      and c: "concat chs = drop (i + n) array"
      and s: "\<forall>c\<in>set chs. 0 < length c \<and> length c \<le> n"
      and k: "length chs = (length array - (i + n) + n - 1) div n" by blast
    have 1: "chunkArray_loop array n i out = Some (out @ (?c # chs))"
      using True l by (subst chunkArray_loop.simps) simp
    have 2: "concat (?c # chs) = drop i array"
      using c slice_concat[of array i n] by simp
    have 3: "0 < length ?c \<and> length ?c \<le> n" using True assms by (simp add: slice_def)
    have d: "length array - (i + n) = length array - i - n" by simp
    have 4: "length (?c # chs) = (length array - i + n - 1) div n"
      using chunk_count_step[OF assms, of "length array - i"] True k unfolding d by simp
    from 1 2 3 4 s show ?thesis by (intro exI[of _ "?c # chs"]) auto
  qed
qed

lemma chunkArray_total:
  assumes "0 < n"
  shows "\<exists>chs. chunkArray array n = Some chs \<and> concat chs = array \<and>
           (\<forall>c\<in>set chs. 0 < length c \<and> length c \<le> n) \<and>
           length chs = (length array + n - 1) div n"
  using chunkArray_loop_total[OF assms, of array 0 "[]"] by (simp add: chunkArray_def)

subsection \<open>new Set\<close>

lemma foldl_set_add_set: "set (foldl set_add acc xs) = set acc \<union> set xs"
  by (induction xs arbitrary: acc) (auto simp: set_add_def)

lemma foldl_set_add_distinct: "distinct acc \<Longrightarrow> distinct (foldl set_add acc xs)"
  by (induction xs arbitrary: acc) (auto simp: set_add_def)

lemma new_Set_set [simp]: "set (new_Set xs) = set xs"
  by (simp add: new_Set_def foldl_set_add_set)

lemma new_Set_distinct [simp]: "distinct (new_Set xs)"
  by (simp add: new_Set_def foldl_set_add_distinct)

lemma new_Set_Nil [simp]: "new_Set [] = []"
  by (simp add: new_Set_def)

subsection \<open>Queues of mapper calls\<close>

lemma drain_length [simp]: "length (drain n ts) = length ts"
  by (induction n ts rule: drain.induct) auto

lemma drain_nth:
  "i < length ts \<Longrightarrow> drain n ts ! i = ts ! i \<or> drain n ts ! i = started (ts ! i)"
proof (induction n ts arbitrary: i rule: drain.induct)
  case (2 cap t ts)
  then show ?case by (cases i) auto
qed (auto simp: nth_Cons split: nat.splits)

lemma drain_active:
  "length (filter active (drain n ts)) \<le> length (filter active ts) + n"
proof (induction n ts rule: drain.induct)
  case (2 cap t ts)
  show ?case
  proof (cases "cap = 0")
    case True then show ?thesis by simp
  next
    case False
    show ?thesis
    proof (cases "outcome t = None")
      case True
      with 2(1)[OF False] False show ?thesis by (auto simp: active_def)
    next
      case f: False
      with 2(1)[OF False] False show ?thesis by (auto simp: active_def)
    qed
  qed
qed auto

lemma refill_length [simp]: "length (refill l ts) = length ts"
  by (cases l) (simp_all add: refill_def)

lemma refill_nth:
  assumes "i < length ts"
  shows "refill l ts ! i = ts ! i \<or> refill l ts ! i = started (ts ! i)"
proof (cases l)
  case None then show ?thesis by (simp add: refill_def)
next
  case (Some n)
  let ?j = "length ts - Suc i"
  have j: "?j < length (rev ts)" using assms by simp
  have "refill l ts ! i = drain (n - length (filter active ts)) (rev ts) ! ?j"
    using assms Some by (simp add: refill_def rev_nth)
  moreover have "rev ts ! ?j = ts ! i" using assms by (simp add: rev_nth)
  ultimately show ?thesis using drain_nth[OF j, of "n - length (filter active ts)"] by auto
qed

lemma refill_active:
  "length (filter active ts) \<le> n \<Longrightarrow> length (filter active (refill (Some n) ts)) \<le> n"
proof -
  assume a: "length (filter active ts) \<le> n"
  have "length (filter active (rev (drain (n - length (filter active ts)) (rev ts)))) =
        length (filter active (drain (n - length (filter active ts)) (rev ts)))"
    by (metis length_rev rev_filter)
  also have "\<dots> \<le> length (filter active (rev ts)) + (n - length (filter active ts))"
    by (rule drain_active)
  also have "length (filter active (rev ts)) = length (filter active ts)"
    by (metis length_rev rev_filter)
  finally show ?thesis using a by (simp add: refill_def)
qed

subsection \<open>The chunk deletes of deleteValues\<close>

lemma del_slot_started: "del_slot ks t \<Longrightarrow> del_slot ks (started t)"
  by (auto simp: del_slot_def)

lemma del_slot_outcome_started: "del_slot ks t \<Longrightarrow> outcome (started t) = outcome t"
  by (auto simp: del_slot_def)

lemma del_slot_event_started: "del_slot ks t \<Longrightarrow> slot_event (ks, started t) = slot_event (ks, t)"
  by (auto simp: del_slot_def)

lemma del_slot_planned_started: "planned (started t) = planned t"
  by (cases t) auto

lemma slots_refill:
  assumes "list_all2 del_slot kss cs"
  shows "list_all2 del_slot kss (refill l cs)"
    and "map outcome (refill l cs) = map outcome cs"
    and "finished kss (refill l cs) = finished kss cs"
    and "map planned (refill l cs) = map planned cs"
proof -
  have len: "length kss = length cs" using assms by (rule list_all2_lengthD)
  have pt: "\<And>i. i < length cs \<Longrightarrow> del_slot (kss ! i) (cs ! i)"
    using assms by (simp add: list_all2_conv_all_nth)
  have st: "\<And>i. i < length cs \<Longrightarrow> del_slot (kss ! i) (refill l cs ! i)"
    using pt refill_nth[of _ cs l] del_slot_started by metis
  have oc: "\<And>i. i < length cs \<Longrightarrow> outcome (refill l cs ! i) = outcome (cs ! i)"
    using pt refill_nth[of _ cs l] del_slot_outcome_started by metis
  have ev: "\<And>i. i < length cs \<Longrightarrow>
      slot_event (kss ! i, refill l cs ! i) = slot_event (kss ! i, cs ! i)"
    using pt refill_nth[of _ cs l] del_slot_event_started by metis
  have pl: "\<And>i. i < length cs \<Longrightarrow> planned (refill l cs ! i) = planned (cs ! i)"
    using refill_nth[of _ cs l] del_slot_planned_started by metis
  show "list_all2 del_slot kss (refill l cs)"
    using len st by (simp add: list_all2_conv_all_nth)
  show "map outcome (refill l cs) = map outcome cs"
    using oc by (intro nth_equalityI) simp_all
  show "map planned (refill l cs) = map planned cs"
    using pl by (intro nth_equalityI) simp_all
  have "map slot_event (zip kss (refill l cs)) = map slot_event (zip kss cs)"
    using len ev by (intro nth_equalityI) simp_all
  then show "finished kss (refill l cs) = finished kss cs" by (simp add: finished_def)
qed

lemma first_rejection_outcomes:
  "map outcome ts = map outcome ts' \<Longrightarrow> first_rejection ts = first_rejection ts'"
proof (induction ts arbitrary: ts')
  case Nil then show ?case by simp
next
  case (Cons t ts)
  then obtain t' ts1 where "ts' = t' # ts1" by (cases ts') auto
  with Cons show ?case by (auto split: option.splits sum.splits)
qed

lemma join_outcomes:
  assumes "map outcome ts = map outcome ts'"
  shows "join ts = join ts'"
proof -
  have 1: "map fulfilled ts = map fulfilled ts'"
    using arg_cong[OF assms, of "map (\<lambda>oc. case oc of Some (Inr v) \<Rightarrow> True | _ \<Rightarrow> False)"]
    by (simp add: fulfilled_def[abs_def] comp_def)
  have 2: "map value_of ts = map value_of ts'"
    using arg_cong[OF assms, of "map (\<lambda>oc. case oc of Some (Inr v) \<Rightarrow> v | _ \<Rightarrow> Undefined)"]
    by (simp add: value_of_def[abs_def] comp_def)
  have "list_all fulfilled ts = list_all id (map fulfilled ts)" by (simp add: list_all_iff)
  also have "\<dots> = list_all id (map fulfilled ts')" by (simp only: 1)
  also have "\<dots> = list_all fulfilled ts'" by (simp add: list_all_iff)
  finally have 3: "list_all fulfilled ts = list_all fulfilled ts'" .
  show ?thesis unfolding join_def first_rejection_outcomes[OF assms] 2 3 ..
qed

lemma settle_Some [simp]: "settle l ts (Some r) = Par l ts (Some r)"
  by (simp add: settle_def)

lemma settle_None:
  "settle l ts None =
     (case join ts of Some r \<Rightarrow> Par l ts (Some r)
      | None \<Rightarrow> Par l (refill l ts) (join (refill l ts)))"
  by (cases "join ts") (simp_all add: settle_def Let_def)

lemma filter_active_update_le:
  "\<not> active x \<Longrightarrow> length (filter active (cs[i := x])) \<le> length (filter active cs)"
proof (induction cs arbitrary: i)
  case Nil then show ?case by simp
next
  case (Cons c cs)
  then show ?case by (cases i) (auto simp: le_SucI)
qed

lemma finished_Cons: "finished (ks # kss) (c # cs) = slot_event (ks, c) @ finished kss cs"
  by (simp add: finished_def)

lemma finished_update:
  "length kss = length cs \<Longrightarrow> i < length cs \<Longrightarrow> slot_event (kss ! i, cs ! i) = [] \<Longrightarrow>
   mset (finished kss (cs[i := Settled r])) = add_mset (DEL (kss ! i), r) (mset (finished kss cs))"
proof (induction cs arbitrary: kss i)
  case Nil then show ?case by simp
next
  case (Cons c cs)
  then obtain ks kss' where k: "kss = ks # kss'" by (cases kss) auto
  show ?case
  proof (cases i)
    case 0
    with Cons.prems k show ?thesis by (simp add: finished_Cons)
  next
    case (Suc j)
    with Cons.prems k Cons.IH[of kss' j] show ?thesis by (simp add: finished_Cons)
  qed
qed


lemma fulfilled_Await [simp]: "\<not> fulfilled (Await c)"
  by (simp add: fulfilled_def)

lemma join_fulfilled: "join ts = Some (Inr v) \<Longrightarrow> list_all fulfilled ts"
  by (auto simp: join_def split: option.splits if_splits)

lemma pool_step:
  assumes ok: "pool_ok kss cs oc" and i: "i < length cs" and a: "cs ! i = Await c"
  shows "c = DEL (kss ! i)"
    and "\<forall>v. oc \<noteq> Some (Inr v)"
    and "\<exists>cs' oc'. settle (Some 100) (cs[i := Settled r]) oc = Par (Some 100) cs' oc' \<and>
           pool_ok kss cs' oc' \<and>
           mset (finished kss cs') = add_mset (DEL (kss ! i), r) (mset (finished kss cs))"
proof -
  from ok have sl: "list_all2 del_slot kss cs" and ac: "length (filter active cs) \<le> 100"
    and oj: "(\<forall>e. oc \<noteq> Some (Inl e)) \<longrightarrow> oc = join cs" by (simp_all add: pool_ok_def)
  have len: "length kss = length cs" using sl by (rule list_all2_lengthD)
  have "del_slot (kss ! i) (cs ! i)" using sl i by (simp add: list_all2_conv_all_nth)
  with a show c: "c = DEL (kss ! i)" by (simp add: del_slot_def)
  show nf: "\<forall>v. oc \<noteq> Some (Inr v)"
  proof (intro allI notI)
    fix v assume "oc = Some (Inr v)"
    with oj have "join cs = Some (Inr v)" by simp
    then have "list_all fulfilled cs" by (rule join_fulfilled)
    with i a show False by (auto simp: list_all_length)
  qed
  let ?cs1 = "cs[i := Settled r]"
  have sl1: "list_all2 del_slot kss ?cs1"
    using sl i by (simp add: list_all2_conv_all_nth nth_list_update del_slot_def)
  have ac1: "length (filter active ?cs1) \<le> 100"
    using filter_active_update_le[of "Settled r" cs i] ac by (simp add: active_def)
  have fi1: "mset (finished kss ?cs1) = add_mset (DEL (kss ! i), r) (mset (finished kss cs))"
    using finished_update[OF len i, of r] a by simp
  show "\<exists>cs' oc'. settle (Some 100) ?cs1 oc = Par (Some 100) cs' oc' \<and>
           pool_ok kss cs' oc' \<and>
           mset (finished kss cs') = add_mset (DEL (kss ! i), r) (mset (finished kss cs))"
  proof (cases oc)
    case (Some r')
    with nf obtain e where "oc = Some (Inl e)" by (cases r') auto
    then show ?thesis using sl1 ac1 fi1 by (auto simp: pool_ok_def)
  next
    case None
    show ?thesis
    proof (cases "join ?cs1")
      case (Some r')
      with None show ?thesis using sl1 ac1 fi1 by (auto simp: pool_ok_def settle_None)
    next
      case n: None
      have "pool_ok kss (refill (Some 100) ?cs1) (join (refill (Some 100) ?cs1))"
        using slots_refill(1)[OF sl1] refill_active[OF ac1] by (simp add: pool_ok_def)
      with None n fi1 slots_refill(3)[OF sl1] show ?thesis by (auto simp: settle_None)
    qed
  qed
qed

lemma dv_pool_outcome:
  "outcome (dv_pool A cs oc) =
     (case oc of None \<Rightarrow> None | Some (Inl e) \<Rightarrow> Some (Inl e) | Some (Inr v) \<Rightarrow> Some (Inr Undefined))"
  by (simp add: dv_pool_def promise_then_def split: option.splits sum.splits)

lemma slot_target:
  "del_slot ks t \<Longrightarrow> target q t = Some c \<longleftrightarrow> q = [] \<and> t = Await c"
  by (auto simp: del_slot_def)

lemma dv_pool_target:
  assumes "pool_ok kss cs oc"
  shows "target p (dv_pool A cs oc) = Some c \<longleftrightarrow>
           (\<exists>i. p = [0, 1, i] \<and> i < length cs \<and> cs ! i = Await c)"
proof -
  from assms have sl: "list_all2 del_slot kss cs" by (simp add: pool_ok_def)
  have st: "target q (cs ! i) = Some c \<longleftrightarrow> q = [] \<and> cs ! i = Await c" if "i < length cs" for i q
  proof -
    have "del_slot (kss ! i) (cs ! i)" using sl that by (simp add: list_all2_conv_all_nth)
    then show ?thesis by (rule slot_target)
  qed
  show ?thesis
  proof (cases "\<exists>v. oc = Some (Inr v)")
    case True
    then obtain v where v: "oc = Some (Inr v)" by blast
    have "\<And>i. i < length cs \<Longrightarrow> cs ! i \<noteq> Await c"
      using pool_step(2)[OF assms] v by blast
    then show ?thesis using v by (auto simp: dv_pool_def promise_then_def)
  next
    case False
    then have "dv_pool A cs oc = Then (Chained A (Par (Some 100) cs oc)) (\<lambda>_. Settled (Inr Undefined))"
      by (auto simp: dv_pool_def promise_then_def split: option.splits sum.splits)
    then show ?thesis using st by auto
  qed
qed

lemma dv_pool_deliver:
  assumes "pool_ok kss cs oc" "i < length cs" "cs ! i = Await c"
    and "settle (Some 100) (cs[i := Settled r]) oc = Par (Some 100) cs' oc'"
  shows "deliver [0, 1, i] r (dv_pool A cs oc) = dv_pool A cs' oc'"
proof -
  have "\<forall>v. oc \<noteq> Some (Inr v)" using pool_step(2)[OF assms(1-3)] .
  then have "dv_pool A cs oc = Then (Chained A (Par (Some 100) cs oc)) (\<lambda>_. Settled (Inr Undefined))"
    by (auto simp: dv_pool_def promise_then_def split: option.splits sum.splits)
  then show ?thesis using assms(2-4) by (simp add: dv_pool_def)
qed


subsection \<open>deleteValues: reading the members\<close>

lemma slots_drain:
  assumes "list_all2 del_slot kss cs"
  shows "list_all2 del_slot kss (drain n cs)"
    and "map outcome (drain n cs) = map outcome cs"
    and "finished kss (drain n cs) = finished kss cs"
    and "map planned (drain n cs) = map planned cs"
proof -
  have len: "length kss = length cs" using assms by (rule list_all2_lengthD)
  have pt: "\<And>i. i < length cs \<Longrightarrow> del_slot (kss ! i) (cs ! i)"
    using assms by (simp add: list_all2_conv_all_nth)
  have st: "\<And>i. i < length cs \<Longrightarrow> del_slot (kss ! i) (drain n cs ! i)"
    using pt drain_nth[of _ cs n] del_slot_started by metis
  have oc: "\<And>i. i < length cs \<Longrightarrow> outcome (drain n cs ! i) = outcome (cs ! i)"
    using pt drain_nth[of _ cs n] del_slot_outcome_started by metis
  have ev: "\<And>i. i < length cs \<Longrightarrow>
      slot_event (kss ! i, drain n cs ! i) = slot_event (kss ! i, cs ! i)"
    using pt drain_nth[of _ cs n] del_slot_event_started by metis
  have pl: "\<And>i. i < length cs \<Longrightarrow> planned (drain n cs ! i) = planned (cs ! i)"
    using drain_nth[of _ cs n] del_slot_planned_started by metis
  show "list_all2 del_slot kss (drain n cs)"
    using len st by (simp add: list_all2_conv_all_nth)
  show "map outcome (drain n cs) = map outcome cs"
    using oc by (intro nth_equalityI) simp_all
  show "map planned (drain n cs) = map planned cs"
    using pl by (intro nth_equalityI) simp_all
  have "map slot_event (zip kss (drain n cs)) = map slot_event (zip kss cs)"
    using len ev by (intro nth_equalityI) simp_all
  then show "finished kss (drain n cs) = finished kss cs" by (simp add: finished_def)
qed

lemma queued_slots: "list_all2 del_slot kss (map (\<lambda>ks. Queued (Await (DEL ks))) kss)"
  by (induction kss) (auto simp: del_slot_def)

lemma finished_Nil [simp]: "finished [] [] = []"
  by (simp add: finished_def)

lemma target_None_iff: "target p t = None \<longleftrightarrow> (\<forall>c. target p t \<noteq> Some c)"
  by auto


lemma queued_active: "filter active (map (\<lambda>ks. Queued (Await (DEL ks))) kss) = []"
  by (induction kss) (auto simp: active_def)

lemma queued_planned: "concat (map planned (map (\<lambda>ks. Queued (Await (DEL ks))) kss)) = map DEL kss"
  by (induction kss) auto

lemma initial_pool_ok: "pool_ok kss (initial_pool kss) (join (initial_pool kss))"
  using slots_drain(1)[OF queued_slots, where n = 100 and kss = kss]
    drain_active[of 100 "map (\<lambda>ks. Queued (Await (DEL ks))) kss"]
  by (simp add: pool_ok_def initial_pool_def queued_active)


lemma initial_pool_planned: "concat (map planned (initial_pool kss)) = map DEL kss"
proof -
  have "map planned (initial_pool kss) = map planned (map (\<lambda>ks. Queued (Await (DEL ks))) kss)"
    unfolding initial_pool_def by (rule slots_drain(4)[OF queued_slots])
  then show ?thesis by (simp only: queued_planned)
qed

lemma promise_map_del_chunk:
  "promise_map (map Arr chs) del_chunk 100 =
     Par (Some 100) (initial_pool (map (map string_of) chs))
       (join (initial_pool (map (map string_of) chs)))"
  by (simp add: promise_map_def initial_pool_def del_chunk_def comp_def Let_def)

lemma deleteValues_target:
  "target p (deleteValues this rk) = Some c \<longleftrightarrow> p = [0, 0, 0] \<and> c = SMEMBERS rk"
  by (auto simp: deleteValues_def promise_then_def)

lemma deleteValues_outcome [simp]: "outcome (deleteValues this rk) = None"
  by (simp add: deleteValues_def promise_then_def)

lemma deleteValues_inflight [simp]: "inflight (deleteValues this rk) = [SMEMBERS rk]"
  by (simp add: deleteValues_def promise_then_def)

lemma deleteValues_read_error:
  "outcome (deliver [0, 0, 0] (Inl e) (deleteValues this rk)) = Some (Inl e) \<and>
   inert (deliver [0, 0, 0] (Inl e) (deleteValues this rk))"
  by (simp add: deleteValues_def promise_then_def inert_def target_None_iff)

lemma deleteValues_read_members:
  assumes "chunkArray (new_Set (map Str ms)) 1000 = Some chs"
  shows "\<exists>A. planned A = [] \<and>
           deliver [0, 0, 0] (Inr (Arr (map Str ms))) (deleteValues this rk) =
           dv_pool A (initial_pool (map (map string_of) chs))
             (join (initial_pool (map (map string_of) chs)))"
  using assms
  by (simp add: deleteValues_def promise_then_def dv_pool_def promise_map_del_chunk
      split: option.splits sum.splits)

lemma perform_kv_faulty:
  "faulty w (length (log w)) = Some e \<Longrightarrow> perform this c w = (r, w') \<Longrightarrow> r = Inl e \<and> kv w' = kv w"
  by (auto simp: perform_def)

lemma perform_SMEMBERS:
  assumes "perform this (SMEMBERS k) w = (r, w')"
  shows "kv w' = kv w \<and>
         ((\<exists>e. r = Inl e) \<or>
          (r = Inr (Arr (map Str (membership (kv w) (prefixed this k)))) \<and>
           \<not> holds_string (kv w) (prefixed this k)))"
  using assms
  by (auto simp: perform_def smembers_def membership_def holds_string_def
      split: option.splits stored.splits)

lemma perform_DEL:
  assumes "perform this (DEL ks) w = (r, w')"
  shows "(\<forall>k. kv w k = None \<longrightarrow> kv w' k = None) \<and>
         (\<forall>v. r = Inr v \<longrightarrow>
            (\<forall>k\<in>set ks. kv w' (prefixed this k) = None) \<and>
            (\<forall>k. k \<notin> prefixed this ` set ks \<longrightarrow> kv w' k = kv w k))"
  using assms
  by (auto simp: perform_def del_def split: option.splits if_splits)

subsection \<open>deleteValues on its own\<close>

lemma chunks_of_props:
  "chunkArray (new_Set (map Str ms)) 1000 = Some (chunks_of ms) \<and>
   concat (chunks_of ms) = new_Set (map Str ms) \<and>
   (\<forall>c\<in>set (chunks_of ms). 0 < length c \<and> length c \<le> 1000) \<and>
   length (chunks_of ms) = (length (new_Set (map Str ms)) + 999) div 1000"
  using chunkArray_total[of 1000 "new_Set (map Str ms)"] by (auto simp: chunks_of_def)

lemma deleteValues_read_ok:
  "\<exists>A. planned A = [] \<and>
       deliver [0, 0, 0] (Inr (Arr (map Str ms))) (deleteValues this rk) =
         dv_pool A (initial_pool (chunk_keys ms)) (join (initial_pool (chunk_keys ms)))"
  using deleteValues_read_members[of ms "chunks_of ms" this rk] chunks_of_props[of ms]
  by (simp add: chunk_keys_def)

lemma deleteValues_read_error_inflight:
  "inflight (deliver [0, 0, 0] (Inl e) (deleteValues this rk)) = []"
  by (simp add: deleteValues_def promise_then_def)

lemma fire_inert: "inert t \<Longrightarrow> fire this p t w = (t, w)"
  by (simp add: fire_def inert_def)








lemma pool_fulfilled_settled:
  assumes "pool_ok kss cs (Some (Inr v))"
  shows "list_all fulfilled cs" and "concat (map inflight cs) = []"
proof -
  from assms have sl: "list_all2 del_slot kss cs" and "join cs = Some (Inr v)"
    by (simp_all add: pool_ok_def)
  then show f: "list_all fulfilled cs" using join_fulfilled by blast
  from sl f show "concat (map inflight cs) = []"
    by (induction kss cs rule: list_all2_induct) (auto simp: del_slot_def fulfilled_def)
qed

lemma dv_pool_inflight_eq:
  assumes "pool_ok kss cs oc"
  shows "inflight (dv_pool A cs oc) = concat (map inflight cs)"
proof (cases "\<exists>v. oc = Some (Inr v)")
  case True
  then obtain v where v: "oc = Some (Inr v)" by blast
  with pool_fulfilled_settled(2)[of kss cs v] assms show ?thesis
    by (simp add: dv_pool_def promise_then_def)
next
  case False
  then show ?thesis by (auto simp: dv_pool_def promise_then_def split: option.splits sum.splits)
qed

lemma perform_SMEMBERS_ok:
  "faulty w (length (log w)) = None \<Longrightarrow> \<not> holds_string (kv w) (prefixed this rk) \<Longrightarrow>
   fst (perform this (SMEMBERS rk) w) = Inr (Arr (map Str (membership (kv w) (prefixed this rk))))"
  by (auto simp: perform_def smembers_def membership_def holds_string_def
      split: option.splits stored.splits)

lemma members_membership: "members s k = set (membership s k)"
  by (auto simp: members_def membership_def split: option.splits stored.splits)



subsection \<open>Settled promises stay settled\<close>

lemma outcome_promise_then_rejected:
  "outcome t = Some (Inl e) \<Longrightarrow> outcome (promise_then t f) = Some (Inl e)"
  by (simp add: promise_then_def)

lemma outcome_settle_Some: "outcome (settle l ts (Some r)) = Some r"
  by simp

lemma outcome_deliver:
  "outcome t = Some x \<Longrightarrow> outcome (deliver p r t) = Some x"
proof (induction p r t arbitrary: x rule: deliver.induct)
  case (2 p r t f)
  then obtain e where "x = Inl e" "outcome t = Some (Inl e)"
    by (auto split: option.splits sum.splits)
  with 2 show ?case by (simp add: outcome_promise_then_rejected)
qed auto

subsection \<open>Promise.all\<close>

lemma first_rejection_None: "first_rejection ts = None \<longleftrightarrow> (\<forall>t\<in>set ts. \<forall>e. outcome t \<noteq> Some (Inl e))"
  by (induction ts) (auto split: option.splits sum.splits)

lemma first_rejection_Some: "first_rejection ts = Some e \<Longrightarrow> \<exists>t\<in>set ts. outcome t = Some (Inl e)"
  by (induction ts) (auto split: option.splits sum.splits)

lemma join_None_iff:
  "join ts = None \<longleftrightarrow> (\<forall>t\<in>set ts. \<forall>e. outcome t \<noteq> Some (Inl e)) \<and> \<not> list_all fulfilled ts"
  by (auto simp: join_def first_rejection_None[symmetric] split: option.splits)

lemma join_Inr_iff:
  "join ts = Some (Inr v) \<longleftrightarrow> list_all fulfilled ts \<and> v = Arr (map value_of ts)"
proof -
  have "list_all fulfilled ts \<Longrightarrow> first_rejection ts = None"
    by (auto simp: first_rejection_None list_all_iff fulfilled_def)
  then show ?thesis by (auto simp: join_def split: option.splits)
qed

lemma join_Inl: "join ts = Some (Inl e) \<Longrightarrow> \<exists>t\<in>set ts. outcome t = Some (Inl e)"
  by (auto simp: join_def split: option.splits if_splits dest: first_rejection_Some)

lemma refill_None [simp]: "refill None ts = ts"
  by (simp add: refill_def)

lemma settle_all:
  "settle None ts oc = Par None ts (case oc of Some x \<Rightarrow> Some x | None \<Rightarrow> join ts)"
  by (cases oc; cases "join ts") (simp_all add: settle_None)

lemma group_ok_fulfilled: "group_ok ts (Some (Inr v)) \<Longrightarrow> list_all fulfilled ts"
  by (simp add: group_ok_def join_Inr_iff)

lemma group_ok_pending: "group_ok ts None \<Longrightarrow> t \<in> set ts \<Longrightarrow> outcome t \<noteq> Some (Inl e)"
  by (simp add: group_ok_def join_None_iff)

lemma group_ok_join: "group_ok ts (join ts)"
  by (cases "join ts") (auto simp: group_ok_def dest: join_Inl split: sum.splits)

lemma group_step:
  assumes g: "group_ok ts oc" and i: "i < length ts" and tg: "target q (ts ! i) = Some c"
  shows "group_ok (ts[i := deliver q r (ts ! i)])
           (case oc of Some x \<Rightarrow> Some x | None \<Rightarrow> join (ts[i := deliver q r (ts ! i)]))"
proof (cases oc)
  case None
  then show ?thesis using group_ok_join by simp
next
  case (Some x)
  show ?thesis
  proof (cases x)
    case (Inl e)
    with Some g obtain t where t: "t \<in> set ts" "outcome t = Some (Inl e)"
      by (auto simp: group_ok_def)
    then obtain j where j: "j < length ts" "ts ! j = t" by (auto simp: in_set_conv_nth)
    have "outcome (ts[i := deliver q r (ts ! i)] ! j) = Some (Inl e)"
      using j t i outcome_deliver[of "ts ! i" "Inl e" q r] by (cases "j = i") auto
    then show ?thesis using Some Inl j
      by (auto simp: group_ok_def in_set_conv_nth intro!: exI[of _ j])
  next
    case (Inr v)
    with Some g have "list_all fulfilled ts" by (simp add: group_ok_fulfilled)
    with i have "fulfilled (ts ! i)" by (simp add: list_all_length)
    then obtain v' where o: "outcome (ts ! i) = Some (Inr v')"
      by (auto simp: fulfilled_def split: option.splits sum.splits)
    have "outcome (deliver q r (ts ! i)) = outcome (ts ! i)"
      using outcome_deliver[OF o, of q r] o by simp
    then have "map outcome (ts[i := deliver q r (ts ! i)]) = map outcome ts"
      using i by (intro nth_equalityI) (auto simp: nth_list_update)
    from join_outcomes[OF this] show ?thesis using Some Inr g by (simp add: group_ok_def)
  qed
qed

subsection \<open>The states of deleteValues\<close>

lemma dv_state_target:
  assumes "dv_state this rk d" "target q d = Some c"
  shows "(d = deleteValues this rk \<and> q = [0, 0, 0] \<and> c = SMEMBERS rk) \<or>
         (\<exists>A kss cs oc i. d = dv_pool A cs oc \<and> planned A = [] \<and> pool_ok kss cs oc \<and>
            q = [0, 1, i] \<and> i < length cs \<and> cs ! i = Await c \<and> c = DEL (kss ! i))"
proof -
  from assms(1) consider (init) "d = deleteValues this rk"
    | (dead) "inert d"
    | (pool) A kss cs oc where "d = dv_pool A cs oc" "planned A = []" "pool_ok kss cs oc"
    unfolding dv_state_def by blast
  then show ?thesis
  proof cases
    case init
    with assms(2) show ?thesis by (simp add: deleteValues_target)
  next
    case dead
    with assms(2) show ?thesis by (simp add: inert_def)
  next
    case pool
    from assms(2) pool(1) dv_pool_target[OF pool(3), of q A c] obtain i where
      i: "q = [0, 1, i]" "i < length cs" "cs ! i = Await c" by auto
    with pool pool_step(1)[OF pool(3) i(2,3)] show ?thesis by blast
  qed
qed

lemma dv_state_step:
  assumes "dv_state this rk d" "target q d = Some c" "perform this c w = (r, w')"
  shows "dv_state this rk (deliver q r d)"
proof -
  from dv_state_target[OF assms(1,2)]
  consider (read) "d = deleteValues this rk" "q = [0, 0, 0]" "c = SMEMBERS rk"
    | (del) A kss cs oc i where "d = dv_pool A cs oc" "planned A = []" "pool_ok kss cs oc"
        "q = [0, 1, i]" "i < length cs" "cs ! i = Await c"
    by blast
  then show ?thesis
  proof cases
    case read
    from perform_SMEMBERS[OF assms(3)[unfolded read(3)]]
    consider (err) e where "r = Inl e" | (ok) "r = Inr (Arr (map Str (membership (kv w) (prefixed this rk))))"
      by blast
    then show ?thesis
    proof cases
      case err
      then show ?thesis using deleteValues_read_error[of e this rk] read
        by (simp add: dv_state_def)
    next
      case ok
      from deleteValues_read_ok[of "membership (kv w) (prefixed this rk)" this rk] ok read
        initial_pool_ok[of "chunk_keys (membership (kv w) (prefixed this rk))"]
      show ?thesis unfolding dv_state_def by blast
    qed
  next
    case del
    from pool_step(3)[OF del(3,5,6), of r] obtain cs' oc' where
      "settle (Some 100) (cs[i := Settled r]) oc = Par (Some 100) cs' oc'" "pool_ok kss cs' oc'"
      by blast
    with dv_pool_deliver[OF del(3,5,6) this(1), of A] del show ?thesis
      unfolding dv_state_def by blast
  qed
qed

lemma dv_state_fulfilled:
  assumes "dv_state this rk d" "fulfilled d"
  shows "planned d = []" and "inert d"
proof -
  from assms obtain A kss cs oc where d: "d = dv_pool A cs oc" "planned A = []" "pool_ok kss cs oc"
    unfolding dv_state_def by (auto simp: fulfilled_def)
  from assms(2) d(1) obtain v where v: "oc = Some (Inr v)"
    by (auto simp: fulfilled_def dv_pool_outcome split: option.splits sum.splits)
  have sl: "list_all2 del_slot kss cs" using d(3) by (simp add: pool_ok_def)
  have f: "list_all fulfilled cs" using pool_fulfilled_settled(1)[OF d(3)[unfolded v]] .
  from sl f have "concat (map planned cs) = []"
    by (induction kss cs rule: list_all2_induct) (auto simp: del_slot_def fulfilled_def)
  then show "planned d = []" using d v by (simp add: dv_pool_def promise_then_def)
  show "inert d" unfolding inert_def
  proof
    fix p
    show "target p d = None"
      using dv_pool_target[OF d(3), of p A] pool_step(2)[OF d(3)] v d(1)
      by (auto simp: target_None_iff)
  qed
qed

subsection \<open>deleteKeysByReference\<close>

lemma refkeys_nonempty: "refkeys this reference ns \<noteq> []"
  by (simp add: refkeys_def js_split_nonempty)

lemma join_initial:
  "rks \<noteq> [] \<Longrightarrow> join (map (deleteValues this) rks) = None"
  by (cases rks) (auto simp: join_None_iff fulfilled_def)

lemma dkr_eq:
  "deleteKeysByReference this reference =
     Then (Then (Await GetNamespace) (dkr_callback this reference))
       (\<lambda>_. Settled (Inr Undefined))"
  by (simp add: deleteKeysByReference_def promise_then_def dkr_callback_def[abs_def])

lemma dkr_callback_Str:
  "dkr_callback this reference (Str ns) =
     Then (Par None (map (deleteValues this) (refkeys this reference ns)) None)
       (\<lambda>_. Await (DEL (refkeys this reference ns)))"
  using join_initial[OF refkeys_nonempty, of this this reference ns]
  by (simp add: dkr_callback_def with_namespace_def Let_def promise_all_def promise_then_def
      refkeys_def)

lemma dkr_callback_bad:
  "\<forall>ns. v \<noteq> Str ns \<Longrightarrow> dkr_callback this reference v = Settled (Inl TypeError)"
  by (cases v) (simp_all add: dkr_callback_def with_namespace_def)

lemma dkr_target0:
  "target p (deleteKeysByReference this reference) = Some c \<longleftrightarrow> p = [0, 0] \<and> c = GetNamespace"
  by (auto simp: dkr_eq)

lemma dkr_inflight0 [simp]: "inflight (deleteKeysByReference this reference) = [GetNamespace]"
  by (simp add: dkr_eq)

lemma dkr_outcome0 [simp]: "outcome (deleteKeysByReference this reference) = None"
  by (simp add: dkr_eq)

lemma dkr_at0 [simp]:
  "dkr_promises (deleteKeysByReference this reference) = []"
  "dkr_del (deleteKeysByReference this reference) = None"
  by (simp_all add: dkr_eq dkr_promises_def dkr_del_def)

lemma dkr_namespace_error:
  "outcome (deliver [0, 0] (Inl e) (deleteKeysByReference this reference)) = Some (Inl e) \<and>
   inert (deliver [0, 0] (Inl e) (deleteKeysByReference this reference)) \<and>
   dkr_promises (deliver [0, 0] (Inl e) (deleteKeysByReference this reference)) = [] \<and>
   dkr_del (deliver [0, 0] (Inl e) (deleteKeysByReference this reference)) = None"
  by (simp add: dkr_eq promise_then_def inert_def target_None_iff dkr_promises_def dkr_del_def)

lemma dkr_namespace_bad:
  assumes "\<forall>ns. v \<noteq> Str ns"
  shows
  "outcome (deliver [0, 0] (Inr v) (deleteKeysByReference this reference)) = Some (Inl TypeError) \<and>
   inert (deliver [0, 0] (Inr v) (deleteKeysByReference this reference)) \<and>
   dkr_promises (deliver [0, 0] (Inr v) (deleteKeysByReference this reference)) = [] \<and>
   dkr_del (deliver [0, 0] (Inr v) (deleteKeysByReference this reference)) = None"
  by (simp add: dkr_eq promise_then_def inert_def target_None_iff dkr_callback_bad[OF assms]
      dkr_promises_def dkr_del_def)

lemma dkr_namespace_ok:
  "deliver [0, 0] (Inr (Str ns)) (deleteKeysByReference this reference) =
     dkr_tree (Settled (Inr (Str ns))) (refkeys this reference ns)
       (map (deleteValues this) (refkeys this reference ns)) None
       (Await (DEL (refkeys this reference ns)))"
  by (simp add: dkr_eq promise_then_def dkr_callback_Str dkr_tree_def)

lemma dkr_ok_initial:
  "dkr_ok this (refkeys this reference ns) (map (deleteValues this) (refkeys this reference ns))
     None (Await (DEL (refkeys this reference ns)))"
  using join_initial[OF refkeys_nonempty, of this this reference ns]
  by (simp add: dkr_ok_def group_ok_def list_all2_conv_all_nth dv_state_def)

lemma dkr_tree_pending:
  "\<forall>v. oc \<noteq> Some (Inr v) \<Longrightarrow>
   dkr_tree N rks ds oc u =
     Then (Chained N (Then (Par None ds oc) (\<lambda>_. Await (DEL rks)))) (\<lambda>_. Settled (Inr Undefined))"
  by (cases oc) (auto simp: dkr_tree_def promise_then_def split: sum.splits)

lemma dkr_tree_joined:
  "dkr_tree N rks ds (Some (Inr v)) u =
     promise_then (Chained N (Chained (Par None ds (Some (Inr v))) u))
       (\<lambda>_. Settled (Inr Undefined))"
  by (simp add: dkr_tree_def)

lemma dkr_tree_outcome:
  "outcome (dkr_tree N rks ds oc u) =
     (case oc of
        None \<Rightarrow> None
      | Some (Inl e) \<Rightarrow> Some (Inl e)
      | Some (Inr v) \<Rightarrow>
          (case outcome u of None \<Rightarrow> None | Some (Inl e) \<Rightarrow> Some (Inl e)
           | Some (Inr v') \<Rightarrow> Some (Inr Undefined)))"
  by (auto simp: dkr_tree_def promise_then_def split: option.splits sum.splits)

lemma dkr_tree_at:
  "dkr_promises (dkr_tree N rks ds oc u) = ds"
  "dkr_del (dkr_tree N rks ds oc u) = (case oc of Some (Inr v) \<Rightarrow> Some u | _ \<Rightarrow> None)"
  by (auto simp: dkr_tree_def promise_then_def dkr_promises_def dkr_del_def
      split: option.splits sum.splits)

lemma dkr_children_inert:
  assumes "dkr_ok this rks ds (Some (Inr v)) u" "i < length ds"
  shows "target q (ds ! i) = None"
proof -
  from assms have "fulfilled (ds ! i)" "dv_state this (rks ! i) (ds ! i)"
    by (auto simp: dkr_ok_def list_all2_conv_all_nth list_all_length dest: group_ok_fulfilled)
  from dv_state_fulfilled(2)[OF this(2,1)] show ?thesis by (simp add: inert_def)
qed

lemma dkr_tree_target:
  assumes "dkr_ok this rks ds oc u"
  shows "target p (dkr_tree N rks ds oc u) = Some c \<longleftrightarrow>
           (\<exists>i q. p = 0 # 1 # 0 # i # q \<and> i < length ds \<and> target q (ds ! i) = Some c) \<or>
           (p = [0, 1, 1] \<and> (\<exists>v. oc = Some (Inr v)) \<and> u = Await c)"
proof (cases "\<exists>v. oc = Some (Inr v)")
  case False
  then show ?thesis by (auto simp: dkr_tree_pending)
next
  case True
  then obtain v where v: "oc = Some (Inr v)" by blast
  have ci: "\<And>i q. i < length ds \<Longrightarrow> target q (ds ! i) \<noteq> Some c"
    using dkr_children_inert[OF assms[unfolded v]] by simp
  from assms v consider "u = Await (DEL rks)" | r where "u = Settled r"
    by (auto simp: dkr_ok_def)
  then show ?thesis
  proof cases
    case 1
    then show ?thesis using v ci by (auto simp: dkr_tree_joined promise_then_def)
  next
    case 2
    then show ?thesis using v ci
      by (cases r) (auto simp: dkr_tree_joined promise_then_def)
  qed
qed

lemma dkr_tree_deliver_child:
  assumes ok: "dkr_ok this rks ds oc u" and i: "i < length ds" and tg: "target q (ds ! i) = Some c"
  shows "\<forall>v. oc \<noteq> Some (Inr v)"
    and "deliver (0 # 1 # 0 # i # q) r (dkr_tree N rks ds oc u) =
           dkr_tree N rks (ds[i := deliver q r (ds ! i)])
             (case oc of Some x \<Rightarrow> Some x | None \<Rightarrow> join (ds[i := deliver q r (ds ! i)]))
             (Await (DEL rks))"
proof -
  show nf: "\<forall>v. oc \<noteq> Some (Inr v)"
    using dkr_children_inert[of this rks ds _ u i q] ok i tg by auto
  let ?ds = "ds[i := deliver q r (ds ! i)]"
  let ?oc = "case oc of Some x \<Rightarrow> Some x | None \<Rightarrow> join ?ds"
  have "deliver (0 # 1 # 0 # i # q) r (dkr_tree N rks ds oc u) =
        promise_then (Chained N (promise_then (Par None ?ds ?oc) (\<lambda>_. Await (DEL rks))))
          (\<lambda>_. Settled (Inr Undefined))"
    using i by (simp add: dkr_tree_pending[OF nf] settle_all)
  also have "\<dots> = dkr_tree N rks ?ds ?oc (Await (DEL rks))"
    by (auto simp: dkr_tree_def promise_then_def split: option.splits sum.splits)
  finally show "deliver (0 # 1 # 0 # i # q) r (dkr_tree N rks ds oc u) =
           dkr_tree N rks ?ds ?oc (Await (DEL rks))" .
qed

lemma dkr_tree_deliver_final:
  "deliver [0, 1, 1] r (dkr_tree N rks ds (Some (Inr v)) (Await c)) =
     dkr_tree N rks ds (Some (Inr v)) (Settled r)"
  by (simp add: dkr_tree_joined promise_then_def)

lemma dkr_fire:
  assumes ok: "dkr_ok this rks ds oc u"
    and f: "fire this p (dkr_tree N rks ds oc u) w = (t', w')"
  shows "(t' = dkr_tree N rks ds oc u \<and> w' = w) \<or>
         (\<exists>i q c r. i < length ds \<and> target q (ds ! i) = Some c \<and> perform this c w = (r, w') \<and>
            (\<forall>v. oc \<noteq> Some (Inr v)) \<and>
            t' = dkr_tree N rks (ds[i := deliver q r (ds ! i)])
                   (case oc of Some x \<Rightarrow> Some x | None \<Rightarrow> join (ds[i := deliver q r (ds ! i)]))
                   (Await (DEL rks)) \<and>
            dkr_ok this rks (ds[i := deliver q r (ds ! i)])
                   (case oc of Some x \<Rightarrow> Some x | None \<Rightarrow> join (ds[i := deliver q r (ds ! i)]))
                   (Await (DEL rks))) \<or>
         (\<exists>v r. oc = Some (Inr v) \<and> u = Await (DEL rks) \<and> perform this (DEL rks) w = (r, w') \<and>
            t' = dkr_tree N rks ds oc (Settled r) \<and> dkr_ok this rks ds oc (Settled r))"
proof -
  from fire_cases[OF f]
  consider "t' = dkr_tree N rks ds oc u" "w' = w"
    | c r where "target p (dkr_tree N rks ds oc u) = Some c" "perform this c w = (r, w')"
        "t' = deliver p r (dkr_tree N rks ds oc u)"
    by blast
  then show ?thesis
  proof cases
    case 1 then show ?thesis by simp
  next
    case 2
    from 2(1) dkr_tree_target[OF ok, of p N c]
    consider (child) i q where "p = 0 # 1 # 0 # i # q" "i < length ds" "target q (ds ! i) = Some c"
      | (final) v where "p = [0, 1, 1]" "oc = Some (Inr v)" "u = Await c"
      by blast
    then show ?thesis
    proof cases
      case child
      let ?ds = "ds[i := deliver q r (ds ! i)]"
      let ?oc = "case oc of Some x \<Rightarrow> Some x | None \<Rightarrow> join ?ds"
      have dv: "dv_state this (rks ! i) (ds ! i)"
        using ok child(2) by (simp add: dkr_ok_def list_all2_conv_all_nth)
      have "dv_state this (rks ! i) (deliver q r (ds ! i))"
        using dv_state_step[OF dv child(3) 2(2)] .
      then have l: "list_all2 (dv_state this) rks ?ds"
        using ok child(2) by (simp add: dkr_ok_def list_all2_conv_all_nth nth_list_update)
      have g: "group_ok ?ds ?oc"
        using group_step[OF _ child(2,3), of oc r] ok by (simp add: dkr_ok_def)
      have "dkr_ok this rks ?ds ?oc (Await (DEL rks))" using l g by (simp add: dkr_ok_def)
      with dkr_tree_deliver_child(1)[OF ok child(2,3)]
        dkr_tree_deliver_child(2)[OF ok child(2,3), of r N] child 2 show ?thesis by blast
    next
      case final
      have u: "u = Await (DEL rks)" using ok final by (auto simp: dkr_ok_def)
      with final have c: "c = DEL rks" by simp
      have "dkr_ok this rks ds oc (Settled r)" using ok final by (auto simp: dkr_ok_def)
      with dkr_tree_deliver_final[of r N rks ds v c] final 2 c u show ?thesis by auto
    qed
  qed
qed

lemma completed_grows:
  assumes "perform this c w = (r, w')" "length (log w0) \<le> length (log w)"
  shows "completed w0 w' = completed w0 w @ [(c, r)]"
  using perform_log[OF assms(1)] assms(2) by (simp add: completed_def)

lemma dkr_inv_fire:
  assumes "dkr_inv this reference w0 c"
  shows "dkr_inv this reference w0 (fire this p (fst c) (snd c))"
proof -
  obtain t w where c: "c = (t, w)" by force
  obtain t' w' where f: "fire this p t w = (t', w')" by force
  note inv = assms[unfolded dkr_inv_def c fst_conv snd_conv]
  from inv have len: "length (log w0) \<le> length (log w)" by (rule conjunct1)
  from fire_log_mono[OF f] len have len': "length (log w0) \<le> length (log w')" by auto
  from inv
  consider (init) "t = deleteKeysByReference this reference" "w = w0"
    | (dead) "inert t"
    | (tree) ns N ds oc u where "fst (perform this GetNamespace w0) = Inr (Str ns)"
        "t = dkr_tree N (refkeys this reference ns) ds oc u"
        "dkr_ok this (refkeys this reference ns) ds oc u"
        "\<forall>r. u = Settled r \<longrightarrow>
           (DEL (refkeys this reference ns), r) \<in> set (completed w0 w) \<and>
           (\<forall>v. r = Inr v \<longrightarrow>
              (\<forall>rk\<in>set (refkeys this reference ns). kv w (prefixed this rk) = None))"
    by blast
  then have "dkr_inv this reference w0 (t', w')"
  proof cases
    case init
    show ?thesis
    proof (cases "p = [0, 0]")
      case False
      then have "target p t = None" using dkr_target0[of p this reference] init(1)
        by (auto simp: target_None_iff)
      then show ?thesis using init f by (simp add: dkr_inv_def fire_def)
    next
      case True
      obtain r w1 where pf: "perform this GetNamespace w0 = (r, w1)" by force
      have f': "(t', w') = (deliver [0, 0] r (deleteKeysByReference this reference), w1)"
        using True init pf f dkr_target0[of p this reference GetNamespace] by (simp add: fire_def)
      consider (err) e where "r = Inl e" | (bad) v where "r = Inr v" "\<forall>ns. v \<noteq> Str ns"
        | (ok) ns where "r = Inr (Str ns)"
        by (cases r) auto
      then show ?thesis
      proof cases
        case err
        then show ?thesis using f' pf len' dkr_namespace_error[of e this reference]
          by (simp add: dkr_inv_def)
      next
        case bad
        then show ?thesis using f' pf len' dkr_namespace_bad[OF bad(2), of this reference]
          by (simp add: dkr_inv_def)
      next
        case ok
        then show ?thesis using f' pf len' dkr_namespace_ok[of ns this reference]
            dkr_ok_initial[of this reference ns]
          unfolding dkr_inv_def by (intro conjI disjI2) auto
      qed
    qed
  next
    case dead
    then show ?thesis using assms f fire_inert[of t this p w] by (simp add: c)
  next
    case tree
    let ?rks = "refkeys this reference ns"
    have build: "dkr_inv this reference w0 (t', w')"
      if "t' = dkr_tree N ?rks ds' oc' u'" "dkr_ok this ?rks ds' oc' u'"
        "\<forall>r. u' = Settled r \<longrightarrow> (DEL ?rks, r) \<in> set (completed w0 w') \<and>
           (\<forall>v. r = Inr v \<longrightarrow> (\<forall>rk\<in>set ?rks. kv w' (prefixed this rk) = None))"
      for ds' oc' u'
    proof -
      have "\<exists>ns N ds oc u.
          fst (perform this GetNamespace w0) = Inr (Str ns) \<and>
          t' = dkr_tree N (refkeys this reference ns) ds oc u \<and>
          dkr_ok this (refkeys this reference ns) ds oc u \<and>
          (\<forall>r. u = Settled r \<longrightarrow>
             (DEL (refkeys this reference ns), r) \<in> set (completed w0 w') \<and>
             (\<forall>v. r = Inr v \<longrightarrow>
                (\<forall>rk\<in>set (refkeys this reference ns). kv w' (prefixed this rk) = None)))"
        apply (rule exI[of _ ns])
        apply (rule exI[of _ N])
        apply (rule exI[of _ ds'])
        apply (rule exI[of _ oc'])
        apply (rule exI[of _ u'])
        using tree(1) that by simp
      then show ?thesis unfolding dkr_inv_def fst_conv snd_conv using len' by blast
    qed
    from dkr_fire[OF tree(3) f[unfolded tree(2)]] show ?thesis
    proof (elim disjE exE conjE)
      assume "t' = dkr_tree N ?rks ds oc u" "w' = w"
      then show ?thesis using build[of ds oc u] tree(3,4) by simp
    next
      fix i q c0 r
      assume "t' = dkr_tree N ?rks (ds[i := deliver q r (ds ! i)])
                 (case oc of Some x \<Rightarrow> Some x | None \<Rightarrow> join (ds[i := deliver q r (ds ! i)]))
                 (Await (DEL ?rks))"
        "dkr_ok this ?rks (ds[i := deliver q r (ds ! i)])
                 (case oc of Some x \<Rightarrow> Some x | None \<Rightarrow> join (ds[i := deliver q r (ds ! i)]))
                 (Await (DEL ?rks))"
      then show ?thesis by (rule build) simp
    next
      fix v r
      assume a: "perform this (DEL ?rks) w = (r, w')" "t' = dkr_tree N ?rks ds oc (Settled r)"
        "dkr_ok this ?rks ds oc (Settled r)"
      from completed_grows[OF a(1) len] have "(DEL ?rks, r) \<in> set (completed w0 w')" by simp
      moreover from perform_DEL[OF a(1)]
      have "\<forall>v. r = Inr v \<longrightarrow> (\<forall>rk\<in>set ?rks. kv w' (prefixed this rk) = None)" by simp
      ultimately show ?thesis using build[OF a(2,3)] by simp
    qed
  qed
  then show ?thesis using c f by simp
qed

lemma dkr_inv_run:
  "dkr_inv this reference w0 c \<Longrightarrow> dkr_inv this reference w0 (run this sched c)"
proof (induction sched arbitrary: c)
  case Nil then show ?case by simp
next
  case (Cons p ps)
  from Cons.IH[OF dkr_inv_fire[OF Cons.prems, of p]] show ?case by simp
qed

lemma dkr_inv_start: "dkr_inv this reference w (deleteKeysByReference this reference, w)"
  by (simp add: dkr_inv_def)

lemma dkr_inv_cases:
  assumes "dkr_inv this reference w (t', w')"
  shows "t' = deleteKeysByReference this reference \<or>
    (\<exists>e. outcome t' = Some (Inl e) \<and> dkr_promises t' = [] \<and> dkr_del t' = None \<and>
        (\<forall>ns. fst (perform this GetNamespace w) \<noteq> Inr (Str ns))) \<or>
    (\<exists>ns' N ds oc u. fst (perform this GetNamespace w) = Inr (Str ns') \<and>
        t' = dkr_tree N (refkeys this reference ns') ds oc u \<and>
        dkr_ok this (refkeys this reference ns') ds oc u \<and>
        (\<forall>r. u = Settled r \<longrightarrow>
           (DEL (refkeys this reference ns'), r) \<in> set (completed w w') \<and>
           (\<forall>v. r = Inr v \<longrightarrow>
              (\<forall>rk\<in>set (refkeys this reference ns'). kv w' (prefixed this rk) = None))))"
  using assms unfolding dkr_inv_def fst_conv snd_conv by blast

lemma dkr_tree_inflight_joined:
  "inflight (dkr_tree N rks ds (Some (Inr v)) (Await c)) = [c]"
  "inflight (dkr_tree N rks ds (Some (Inr v)) (Settled r)) = []"
  by (auto simp: dkr_tree_def promise_then_def split: option.splits sum.splits)

lemma dkr_ok_length: "dkr_ok this rks ds oc u \<Longrightarrow> length ds = length rks"
  by (auto simp: dkr_ok_def dest: list_all2_lengthD)

lemma group_ok_fulfilled_iff:
  assumes "group_ok ts oc"
  shows "(\<exists>v. oc = Some (Inr v)) \<longleftrightarrow> list_all fulfilled ts"
proof
  assume "\<exists>v. oc = Some (Inr v)"
  with assms show "list_all fulfilled ts" using group_ok_fulfilled by blast
next
  assume a: "list_all fulfilled ts"
  show "\<exists>v. oc = Some (Inr v)"
  proof (cases oc)
    case None
    with assms a show ?thesis by (simp add: group_ok_def join_None_iff)
  next
    case (Some x)
    show ?thesis
    proof (cases x)
      case (Inl e)
      with Some assms obtain t where "t \<in> set ts" "outcome t = Some (Inl e)"
        by (auto simp: group_ok_def)
      with a show ?thesis by (auto simp: list_all_iff fulfilled_def)
    next
      case (Inr v) with Some show ?thesis by simp
    qed
  qed
qed

lemma group_ok_rejected:
  assumes "group_ok ts oc" "t \<in> set ts" "outcome t = Some (Inl e)"
  shows "\<exists>e'. oc = Some (Inl e') \<and> (\<exists>t'\<in>set ts. outcome t' = Some (Inl e'))"
proof (cases oc)
  case None
  with assms show ?thesis using group_ok_pending by blast
next
  case (Some x)
  show ?thesis
  proof (cases x)
    case (Inl e') with Some assms(1) show ?thesis by (auto simp: group_ok_def)
  next
    case (Inr v)
    with Some assms(1) have "list_all fulfilled ts" using group_ok_fulfilled by blast
    with assms(2,3) show ?thesis by (auto simp: list_all_iff fulfilled_def)
  qed
qed

text \<open>
  C3. In every execution of \<^verbatim>\<open>deleteKeysByReference\<close>, the call
  \<^verbatim>\<open>this.store.del(...referenceKeys)\<close> has been made exactly when every per-segment
  \<^verbatim>\<open>deleteValues\<close> promise is fulfilled, and it is one \<^verbatim>\<open>del\<close> of all the reference keys
  of the namespace: from then on that call is in flight, and is the only call in flight, or
  it is in the log of completed calls with its reply, and the promise of
  \<^verbatim>\<open>deleteKeysByReference\<close> is pending, fulfilled or rejected as that call is in flight, has
  succeeded or has failed; after a successful reply the reference keys are absent from the
  store. So the promise is fulfilled only after every \<^verbatim>\<open>deleteValues\<close> promise is fulfilled
  and the \<^verbatim>\<open>del\<close> of the reference keys has succeeded. If any \<^verbatim>\<open>deleteValues\<close> promise is
  rejected, that call is never made and the promise of \<^verbatim>\<open>deleteKeysByReference\<close> is
  rejected with the error of a rejected \<^verbatim>\<open>deleteValues\<close>. The promises are those of
  \<^verbatim>\<open>deleteValues\<close> for the reference keys of the segments, in order.
\<close>

theorem deleteKeysByReference_del_after_all:
  "(dkr_del (fst (run this sched (deleteKeysByReference this reference, w))) \<noteq> None \<longleftrightarrow>
      dkr_promises (fst (run this sched (deleteKeysByReference this reference, w))) \<noteq> [] \<and>
      list_all fulfilled (dkr_promises (fst (run this sched (deleteKeysByReference this reference, w))))) \<and>
   ((\<exists>d\<in>set (dkr_promises (fst (run this sched (deleteKeysByReference this reference, w)))).
        \<exists>e. outcome d = Some (Inl e)) \<longrightarrow>
      dkr_del (fst (run this sched (deleteKeysByReference this reference, w))) = None \<and>
      (\<exists>e. outcome (fst (run this sched (deleteKeysByReference this reference, w))) = Some (Inl e) \<and>
           (\<exists>d\<in>set (dkr_promises (fst (run this sched (deleteKeysByReference this reference, w)))).
              outcome d = Some (Inl e)))) \<and>
   (fst (perform this GetNamespace w) = Inr (Str ns) \<longrightarrow>
      dkr_promises (fst (fire this [0, 0] (deleteKeysByReference this reference) w)) =
        map (deleteValues this) (refkeys this reference ns) \<and>
      (fst (run this sched (deleteKeysByReference this reference, w)) =
         deleteKeysByReference this reference \<or>
       list_all2 (dv_state this) (refkeys this reference ns)
         (dkr_promises (fst (run this sched (deleteKeysByReference this reference, w))))) \<and>
      (\<forall>u. dkr_del (fst (run this sched (deleteKeysByReference this reference, w))) = Some u \<longrightarrow>
         (u = Await (DEL (refkeys this reference ns)) \<and>
          inflight (fst (run this sched (deleteKeysByReference this reference, w))) =
            [DEL (refkeys this reference ns)] \<and>
          outcome (fst (run this sched (deleteKeysByReference this reference, w))) = None) \<or>
         (\<exists>r. u = Settled r \<and>
              (DEL (refkeys this reference ns), r) \<in>
                set (completed w (snd (run this sched (deleteKeysByReference this reference, w)))) \<and>
              inflight (fst (run this sched (deleteKeysByReference this reference, w))) = [] \<and>
              outcome (fst (run this sched (deleteKeysByReference this reference, w))) =
                (case r of Inl e \<Rightarrow> Some (Inl e) | Inr v \<Rightarrow> Some (Inr Undefined)) \<and>
              (\<forall>v. r = Inr v \<longrightarrow>
                 (\<forall>rk\<in>set (refkeys this reference ns).
                    kv (snd (run this sched (deleteKeysByReference this reference, w)))
                       (prefixed this rk) = None))))) \<and>
   (\<forall>v. outcome (fst (run this sched (deleteKeysByReference this reference, w))) = Some (Inr v) \<longrightarrow>
      dkr_promises (fst (run this sched (deleteKeysByReference this reference, w))) \<noteq> [] \<and>
      list_all fulfilled (dkr_promises (fst (run this sched (deleteKeysByReference this reference, w)))) \<and>
      (\<exists>ns' v'. fst (perform this GetNamespace w) = Inr (Str ns') \<and>
         (DEL (refkeys this reference ns'), Inr v') \<in>
           set (completed w (snd (run this sched (deleteKeysByReference this reference, w))))))"
proof -
  obtain t' w' where r: "run this sched (deleteKeysByReference this reference, w) = (t', w')"
    by force
  from dkr_inv_run[OF dkr_inv_start, of this reference w sched] r
  have "dkr_inv this reference w (t', w')" by simp
  from dkr_inv_cases[OF this]
  consider (init) "t' = deleteKeysByReference this reference"
    | (dead) e where "outcome t' = Some (Inl e)" "dkr_promises t' = []" "dkr_del t' = None"
        "\<forall>ns. fst (perform this GetNamespace w) \<noteq> Inr (Str ns)"
    | (tree) ns' N ds oc u where "fst (perform this GetNamespace w) = Inr (Str ns')"
        "t' = dkr_tree N (refkeys this reference ns') ds oc u"
        "dkr_ok this (refkeys this reference ns') ds oc u"
        "\<forall>r. u = Settled r \<longrightarrow>
           (DEL (refkeys this reference ns'), r) \<in> set (completed w w') \<and>
           (\<forall>v. r = Inr v \<longrightarrow>
              (\<forall>rk\<in>set (refkeys this reference ns'). kv w' (prefixed this rk) = None))"
    by (elim disjE exE conjE) blast+
  note cases = this
  have P1: "dkr_del t' \<noteq> None \<longleftrightarrow> dkr_promises t' \<noteq> [] \<and> list_all fulfilled (dkr_promises t')"
  proof (cases rule: cases)
    case init then show ?thesis by simp
  next
    case dead then show ?thesis by simp
  next
    case tree
    have pr: "dkr_promises t' = ds" by (simp add: tree(2) dkr_tree_at)
    have dl: "dkr_del t' = (case oc of Some (Inr v) \<Rightarrow> Some u | _ \<Rightarrow> None)"
      by (simp add: tree(2) dkr_tree_at)
    have g: "group_ok ds oc" using tree(3) by (simp add: dkr_ok_def)
    have ne: "ds \<noteq> []" using dkr_ok_length[OF tree(3)] refkeys_nonempty[of this reference ns']
      by auto
    show ?thesis
      using group_ok_fulfilled_iff[OF g] ne pr dl by (auto split: option.splits sum.splits)
  qed
  have P2: "(\<exists>d\<in>set (dkr_promises t'). \<exists>e. outcome d = Some (Inl e)) \<longrightarrow>
        dkr_del t' = None \<and>
        (\<exists>e. outcome t' = Some (Inl e) \<and> (\<exists>d\<in>set (dkr_promises t'). outcome d = Some (Inl e)))"
  proof (cases rule: cases)
    case init then show ?thesis by simp
  next
    case dead then show ?thesis by simp
  next
    case tree
    have pr: "dkr_promises t' = ds" by (simp add: tree(2) dkr_tree_at)
    have dl: "dkr_del t' = (case oc of Some (Inr v) \<Rightarrow> Some u | _ \<Rightarrow> None)"
      by (simp add: tree(2) dkr_tree_at)
    have g: "group_ok ds oc" using tree(3) by (simp add: dkr_ok_def)
    show ?thesis
    proof
      assume "\<exists>d\<in>set (dkr_promises t'). \<exists>e. outcome d = Some (Inl e)"
      with pr group_ok_rejected[OF g] obtain e' where
        "oc = Some (Inl e')" "\<exists>d\<in>set ds. outcome d = Some (Inl e')" by blast
      then show "dkr_del t' = None \<and>
        (\<exists>e. outcome t' = Some (Inl e) \<and> (\<exists>d\<in>set (dkr_promises t'). outcome d = Some (Inl e)))"
        using pr dl by (simp add: tree(2) dkr_tree_outcome)
    qed
  qed
  have P3: "fst (perform this GetNamespace w) = Inr (Str ns) \<longrightarrow>
      dkr_promises (fst (fire this [0, 0] (deleteKeysByReference this reference) w)) =
        map (deleteValues this) (refkeys this reference ns) \<and>
      (t' = deleteKeysByReference this reference \<or>
       list_all2 (dv_state this) (refkeys this reference ns) (dkr_promises t')) \<and>
      (\<forall>u. dkr_del t' = Some u \<longrightarrow>
         (u = Await (DEL (refkeys this reference ns)) \<and>
          inflight t' = [DEL (refkeys this reference ns)] \<and> outcome t' = None) \<or>
         (\<exists>r. u = Settled r \<and> (DEL (refkeys this reference ns), r) \<in> set (completed w w') \<and>
              inflight t' = [] \<and>
              outcome t' = (case r of Inl e \<Rightarrow> Some (Inl e) | Inr v \<Rightarrow> Some (Inr Undefined)) \<and>
              (\<forall>v. r = Inr v \<longrightarrow>
                 (\<forall>rk\<in>set (refkeys this reference ns). kv w' (prefixed this rk) = None))))"
  proof
    assume n: "fst (perform this GetNamespace w) = Inr (Str ns)"
    let ?rks = "refkeys this reference ns"
    have first: "dkr_promises (fst (fire this [0, 0] (deleteKeysByReference this reference) w)) =
        map (deleteValues this) ?rks"
      using n dkr_target0[of "[0, 0]" this reference GetNamespace] dkr_namespace_ok[of ns this reference]
      by (simp add: fire_def split_def dkr_tree_at)
    have rest: "(t' = deleteKeysByReference this reference \<or>
       list_all2 (dv_state this) ?rks (dkr_promises t')) \<and>
      (\<forall>u. dkr_del t' = Some u \<longrightarrow>
         (u = Await (DEL ?rks) \<and> inflight t' = [DEL ?rks] \<and> outcome t' = None) \<or>
         (\<exists>r. u = Settled r \<and> (DEL ?rks, r) \<in> set (completed w w') \<and> inflight t' = [] \<and>
              outcome t' = (case r of Inl e \<Rightarrow> Some (Inl e) | Inr v \<Rightarrow> Some (Inr Undefined)) \<and>
              (\<forall>v. r = Inr v \<longrightarrow> (\<forall>rk\<in>set ?rks. kv w' (prefixed this rk) = None))))"
    proof (cases rule: cases)
      case init then show ?thesis by simp
    next
      case dead with n show ?thesis by simp
    next
      case tree
      from n tree(1) have ns: "ns' = ns" by simp
      note tree = tree[unfolded ns]
      have pr: "dkr_promises t' = ds" by (simp add: tree(2) dkr_tree_at)
      have dl: "dkr_del t' = (case oc of Some (Inr v) \<Rightarrow> Some u | _ \<Rightarrow> None)"
        by (simp add: tree(2) dkr_tree_at)
      have l: "list_all2 (dv_state this) ?rks ds"
        and uu: "u = Await (DEL ?rks) \<or> (\<exists>r. u = Settled r)"
        using tree(3) by (auto simp: dkr_ok_def)
      have del: "(u0 = Await (DEL ?rks) \<and> inflight t' = [DEL ?rks] \<and> outcome t' = None) \<or>
           (\<exists>r. u0 = Settled r \<and> (DEL ?rks, r) \<in> set (completed w w') \<and> inflight t' = [] \<and>
                outcome t' = (case r of Inl e \<Rightarrow> Some (Inl e) | Inr v \<Rightarrow> Some (Inr Undefined)) \<and>
                (\<forall>v. r = Inr v \<longrightarrow> (\<forall>rk\<in>set ?rks. kv w' (prefixed this rk) = None)))"
        if d: "dkr_del t' = Some u0" for u0
      proof -
        from d dl obtain v where oc: "oc = Some (Inr v)" and u0: "u0 = u"
          by (auto split: option.splits sum.splits)
        from uu show ?thesis
        proof
          assume a: "u = Await (DEL ?rks)"
          then show ?thesis using oc u0
            by (simp add: tree(2) dkr_tree_inflight_joined dkr_tree_outcome)
        next
          assume "\<exists>r. u = Settled r"
          then obtain r where s: "u = Settled r" by blast
          with tree(4) have "(DEL ?rks, r) \<in> set (completed w w')"
            "\<forall>v. r = Inr v \<longrightarrow> (\<forall>rk\<in>set ?rks. kv w' (prefixed this rk) = None)" by simp_all
          moreover have "inflight t' = []" using s oc by (simp add: tree(2) dkr_tree_inflight_joined)
          moreover have "outcome t' = (case r of Inl e \<Rightarrow> Some (Inl e) | Inr v \<Rightarrow> Some (Inr Undefined))"
            using s oc by (simp add: tree(2) dkr_tree_outcome split: sum.splits)
          ultimately have "u0 = Settled r \<and> (DEL ?rks, r) \<in> set (completed w w') \<and> inflight t' = [] \<and>
                outcome t' = (case r of Inl e \<Rightarrow> Some (Inl e) | Inr v \<Rightarrow> Some (Inr Undefined)) \<and>
                (\<forall>v. r = Inr v \<longrightarrow> (\<forall>rk\<in>set ?rks. kv w' (prefixed this rk) = None))"
            using s u0 by simp
          then show ?thesis by (intro disjI2 exI[of _ r])
        qed
      qed
      have A: "t' = deleteKeysByReference this reference \<or>
          list_all2 (dv_state this) ?rks (dkr_promises t')" using l pr by simp
      have B: "\<forall>u. dkr_del t' = Some u \<longrightarrow>
         (u = Await (DEL ?rks) \<and> inflight t' = [DEL ?rks] \<and> outcome t' = None) \<or>
         (\<exists>r. u = Settled r \<and> (DEL ?rks, r) \<in> set (completed w w') \<and> inflight t' = [] \<and>
              outcome t' = (case r of Inl e \<Rightarrow> Some (Inl e) | Inr v \<Rightarrow> Some (Inr Undefined)) \<and>
              (\<forall>v. r = Inr v \<longrightarrow> (\<forall>rk\<in>set ?rks. kv w' (prefixed this rk) = None)))"
        by (intro allI impI) (rule del)
      from A B show ?thesis by (rule conjI)
    qed
    from first rest show "dkr_promises (fst (fire this [0, 0] (deleteKeysByReference this reference) w)) =
        map (deleteValues this) ?rks \<and>
      (t' = deleteKeysByReference this reference \<or>
       list_all2 (dv_state this) ?rks (dkr_promises t')) \<and>
      (\<forall>u. dkr_del t' = Some u \<longrightarrow>
         (u = Await (DEL ?rks) \<and> inflight t' = [DEL ?rks] \<and> outcome t' = None) \<or>
         (\<exists>r. u = Settled r \<and> (DEL ?rks, r) \<in> set (completed w w') \<and> inflight t' = [] \<and>
              outcome t' = (case r of Inl e \<Rightarrow> Some (Inl e) | Inr v \<Rightarrow> Some (Inr Undefined)) \<and>
              (\<forall>v. r = Inr v \<longrightarrow> (\<forall>rk\<in>set ?rks. kv w' (prefixed this rk) = None))))"
      by (rule conjI)
  qed
  have P4: "\<forall>v. outcome t' = Some (Inr v) \<longrightarrow>
      dkr_promises t' \<noteq> [] \<and> list_all fulfilled (dkr_promises t') \<and>
      (\<exists>ns' v'. fst (perform this GetNamespace w) = Inr (Str ns') \<and>
         (DEL (refkeys this reference ns'), Inr v') \<in> set (completed w w'))"
  proof (intro allI impI)
    fix v assume o: "outcome t' = Some (Inr v)"
    show "dkr_promises t' \<noteq> [] \<and> list_all fulfilled (dkr_promises t') \<and>
      (\<exists>ns' v'. fst (perform this GetNamespace w) = Inr (Str ns') \<and>
         (DEL (refkeys this reference ns'), Inr v') \<in> set (completed w w'))"
    proof (cases rule: cases)
      case init with o show ?thesis by (simp add: dkr_outcome0)
    next
      case dead with o show ?thesis by simp
    next
      case tree
      let ?rks = "refkeys this reference ns'"
      have dl: "dkr_del t' = (case oc of Some (Inr v) \<Rightarrow> Some u | _ \<Rightarrow> None)"
        by (simp add: tree(2) dkr_tree_at)
      have uu: "u = Await (DEL ?rks) \<or> (\<exists>r. u = Settled r)"
        using tree(3) by (auto simp: dkr_ok_def)
      from o obtain v1 v2 where oc: "oc = Some (Inr v1)" and ou: "outcome u = Some (Inr v2)"
        by (auto simp: tree(2) dkr_tree_outcome split: option.splits sum.splits)
      from uu ou have "u = Settled (Inr v2)" by auto
      with tree(4) have "(DEL ?rks, Inr v2) \<in> set (completed w w')" by simp
      with tree(1) have "\<exists>ns' v'. fst (perform this GetNamespace w) = Inr (Str ns') \<and>
         (DEL (refkeys this reference ns'), Inr v') \<in> set (completed w w')" by blast
      moreover from oc dl P1 have "dkr_promises t' \<noteq> [] \<and> list_all fulfilled (dkr_promises t')"
        by simp
      ultimately show ?thesis by simp
    qed
  qed
  show ?thesis unfolding r fst_conv snd_conv
    apply (rule conjI[OF P1])
    apply (rule conjI[OF P2])
    apply (rule conjI[OF P3])
    by (rule P4)
qed

theorem deleteKeysByReference_del_after_all_witness:
  "length (dkr_promises (fst (run example_cache
       [[0, 0], [0, 1, 0, 0, 0, 0, 0], [0, 1, 0, 1, 0, 0, 0], [0, 1, 0, 0, 0, 1, 0]]
       (deleteKeysByReference example_cache REFERENCE_KEY_STANDARD, faulty_world)))) = 2 \<and>
   outcome (dkr_promises (fst (run example_cache
       [[0, 0], [0, 1, 0, 0, 0, 0, 0], [0, 1, 0, 1, 0, 0, 0], [0, 1, 0, 0, 0, 1, 0]]
       (deleteKeysByReference example_cache REFERENCE_KEY_STANDARD, faulty_world))) ! 0) =
     Some (Inl StoreUnavailable) \<and>
   dkr_del (fst (run example_cache
       [[0, 0], [0, 1, 0, 0, 0, 0, 0], [0, 1, 0, 1, 0, 0, 0], [0, 1, 0, 0, 0, 1, 0]]
       (deleteKeysByReference example_cache REFERENCE_KEY_STANDARD, faulty_world))) = None \<and>
   outcome (fst (run example_cache
       [[0, 0], [0, 1, 0, 0, 0, 0, 0], [0, 1, 0, 1, 0, 0, 0], [0, 1, 0, 0, 0, 1, 0]]
       (deleteKeysByReference example_cache REFERENCE_KEY_STANDARD, faulty_world))) =
     Some (Inl StoreUnavailable) \<and>
   fst (perform example_cache GetNamespace example_world) = Inr (Str ''users|premium'') \<and>
   refkeys example_cache REFERENCE_KEY_STANDARD ''users|premium'' =
     [''tag:users:standard_ref'', ''tag:premium:standard_ref''] \<and>
   map_option inflight (dkr_del (fst (run example_cache
       [[0, 0], [0, 1, 0, 0, 0, 0, 0], [0, 1, 0, 1, 0, 0, 0], [0, 1, 0, 0, 0, 1, 0],
        [0, 1, 0, 1, 0, 1, 0]]
       (deleteKeysByReference example_cache REFERENCE_KEY_STANDARD, example_world)))) =
     Some [DEL [''tag:users:standard_ref'', ''tag:premium:standard_ref'']] \<and>
   inflight (fst (run example_cache
       [[0, 0], [0, 1, 0, 0, 0, 0, 0], [0, 1, 0, 1, 0, 0, 0], [0, 1, 0, 0, 0, 1, 0],
        [0, 1, 0, 1, 0, 1, 0]]
       (deleteKeysByReference example_cache REFERENCE_KEY_STANDARD, example_world))) =
     [DEL [''tag:users:standard_ref'', ''tag:premium:standard_ref'']] \<and>
   outcome (fst (run example_cache
       [[0, 0], [0, 1, 0, 0, 0, 0, 0], [0, 1, 0, 1, 0, 0, 0], [0, 1, 0, 0, 0, 1, 0],
        [0, 1, 0, 1, 0, 1, 0], [0, 1, 1]]
       (deleteKeysByReference example_cache REFERENCE_KEY_STANDARD, example_world))) =
     Some (Inr Undefined) \<and>
   (\<exists>v. (DEL [''tag:users:standard_ref'', ''tag:premium:standard_ref''], Inr v) \<in>
      set (completed example_world (snd (run example_cache
       [[0, 0], [0, 1, 0, 0, 0, 0, 0], [0, 1, 0, 1, 0, 0, 0], [0, 1, 0, 0, 0, 1, 0],
        [0, 1, 0, 1, 0, 1, 0], [0, 1, 1]]
       (deleteKeysByReference example_cache REFERENCE_KEY_STANDARD, example_world))))) \<and>
   kv (snd (run example_cache
       [[0, 0], [0, 1, 0, 0, 0, 0, 0], [0, 1, 0, 1, 0, 0, 0], [0, 1, 0, 0, 0, 1, 0],
        [0, 1, 0, 1, 0, 1, 0], [0, 1, 1]]
       (deleteKeysByReference example_cache REFERENCE_KEY_STANDARD, example_world)))
     ''cache:tag:users:standard_ref'' = None"
proof -
  let ?T = "fst (run example_cache
       [[0, 0], [0, 1, 0, 0, 0, 0, 0], [0, 1, 0, 1, 0, 0, 0], [0, 1, 0, 0, 0, 1, 0]]
       (deleteKeysByReference example_cache REFERENCE_KEY_STANDARD, faulty_world))"
  let ?S1 = "[[0, 0], [0, 1, 0, 0, 0, 0, 0], [0, 1, 0, 1, 0, 0, 0], [0, 1, 0, 0, 0, 1, 0],
        [0, 1, 0, 1, 0, 1, 0]]"
  let ?S2 = "[[0, 0], [0, 1, 0, 0, 0, 0, 0], [0, 1, 0, 1, 0, 0, 0], [0, 1, 0, 0, 0, 1, 0],
        [0, 1, 0, 1, 0, 1, 0], [0, 1, 1]]"
  let ?C1 = "run example_cache ?S1 (deleteKeysByReference example_cache REFERENCE_KEY_STANDARD, example_world)"
  let ?C2 = "run example_cache ?S2 (deleteKeysByReference example_cache REFERENCE_KEY_STANDARD, example_world)"
  have a: "length (dkr_promises ?T) = 2" by code_simp
  have b: "outcome (dkr_promises ?T ! 0) = Some (Inl StoreUnavailable)" by code_simp
  have c: "outcome ?T = Some (Inl StoreUnavailable)" by code_simp
  have "dkr_promises ?T ! 0 \<in> set (dkr_promises ?T)" using a by simp
  with b have "\<exists>d\<in>set (dkr_promises ?T). \<exists>e. outcome d = Some (Inl e)" by blast
  with deleteKeysByReference_del_after_all[where this = example_cache
      and sched = "[[0, 0], [0, 1, 0, 0, 0, 0, 0], [0, 1, 0, 1, 0, 0, 0], [0, 1, 0, 0, 0, 1, 0]]"
      and reference = REFERENCE_KEY_STANDARD and w = faulty_world]
  have d: "dkr_del ?T = None" by blast
  have n: "fst (perform example_cache GetNamespace example_world) = Inr (Str ''users|premium'')"
    by code_simp
  have k: "refkeys example_cache REFERENCE_KEY_STANDARD ''users|premium'' =
     [''tag:users:standard_ref'', ''tag:premium:standard_ref'']" by code_simp
  have d1: "map_option inflight (dkr_del (fst ?C1)) =
     Some [DEL [''tag:users:standard_ref'', ''tag:premium:standard_ref'']]" by code_simp
  have i1: "inflight (fst ?C1) = [DEL [''tag:users:standard_ref'', ''tag:premium:standard_ref'']]"
    by code_simp
  have o2: "outcome (fst ?C2) = Some (Inr Undefined)" by code_simp
  from deleteKeysByReference_del_after_all[where this = example_cache and sched = ?S2
      and reference = REFERENCE_KEY_STANDARD and w = example_world and ns = "''users|premium''"]
    n o2
  have "\<exists>ns' v'. fst (perform example_cache GetNamespace example_world) = Inr (Str ns') \<and>
      (DEL (refkeys example_cache REFERENCE_KEY_STANDARD ns'), Inr v') \<in>
        set (completed example_world (snd ?C2))"
    by blast
  then have l2: "\<exists>v. (DEL [''tag:users:standard_ref'', ''tag:premium:standard_ref''], Inr v) \<in>
      set (completed example_world (snd ?C2))"
    unfolding n by (simp add: k)
  have k2: "kv (snd ?C2) ''cache:tag:users:standard_ref'' = None" by code_simp
  show ?thesis by (intro conjI a b c d n k d1 i1 o2 l2 k2)
qed
section \<open>Flush completeness of deleteKeysByReference\<close>

subsection \<open>Calls still to complete\<close>

lemma planned_started [simp]: "planned (started t) = planned t"
  by (cases t) auto

lemma planned_drain: "map planned (drain n ts) = map planned ts"
  by (induction n ts rule: drain.induct) auto

lemma planned_refill: "map planned (refill l ts) = map planned ts"
proof (cases l)
  case None then show ?thesis by simp
next
  case (Some n)
  have "map planned (rev (drain (n - length (filter active ts)) (rev ts))) =
        rev (map planned (drain (n - length (filter active ts)) (rev ts)))"
    by (simp add: rev_map)
  also have "\<dots> = rev (map planned (rev ts))" by (simp only: planned_drain)
  also have "\<dots> = map planned ts" by (simp add: rev_map)
  finally show ?thesis using Some by (simp add: refill_def)
qed

lemma planned_settle:
  "planned (settle l ts oc) = concat (map planned ts)"
  by (cases oc; cases "join ts") (simp_all add: settle_None planned_refill)

lemma planned_promise_then: "set (planned t) \<subseteq> set (planned (promise_then t f))"
  by (auto simp: promise_then_def split: option.splits sum.splits)

lemma planned_deliver:
  "target p t = Some c \<Longrightarrow> c' \<in> set (planned t) \<Longrightarrow> c' \<noteq> c \<Longrightarrow>
   c' \<in> set (planned (deliver p r t))"
proof (induction p r t rule: deliver.induct)
  case (2 p r t f)
  then have "c' \<in> set (planned (deliver p r t))" by simp
  then show ?case using planned_promise_then[of "deliver p r t" f] by auto
next
  case (4 i p r limit ts oc)
  then have i: "i < length ts" and tg: "target p (ts ! i) = Some c"
    by (auto split: if_splits)
  from 4(3) obtain d where "d \<in> set ts" "c' \<in> set (planned d)" by auto
  then obtain j where j: "j < length ts" "c' \<in> set (planned (ts ! j))"
    by (metis in_set_conv_nth)
  have "c' \<in> set (planned (ts[i := deliver p r (ts ! i)] ! j))"
  proof (cases "j = i")
    case True
    with 4(1)[OF i tg _ 4(4)] j i show ?thesis by simp
  next
    case False
    with j show ?thesis by simp
  qed
  then have "c' \<in> set (concat (map planned (ts[i := deliver p r (ts ! i)])))"
  proof -
    have "ts[i := deliver p r (ts ! i)] ! j \<in> set (ts[i := deliver p r (ts ! i)])"
      using j(1) by simp
    with \<open>c' \<in> set (planned (ts[i := deliver p r (ts ! i)] ! j))\<close> show ?thesis
      by (simp only: set_concat set_map) blast
  qed
  then show ?case using i by (simp add: planned_settle)
qed auto

lemma dv_pool_planned: "planned (dv_pool A cs oc) = planned A @ concat (map planned cs)"
  by (auto simp: dv_pool_def promise_then_def split: option.splits sum.splits)

lemma deleteValues_planned [simp]: "planned (deleteValues this rk) = [SMEMBERS rk]"
  by (simp add: deleteValues_def promise_then_def)

lemma chunk_keys_set: "set (concat (chunk_keys ms)) = set ms"
proof -
  have "concat (chunk_keys ms) = map string_of (concat (chunks_of ms))"
    by (simp add: chunk_keys_def map_concat)
  also have "\<dots> = map string_of (new_Set (map Str ms))" using chunks_of_props[of ms] by simp
  finally have "set (concat (chunk_keys ms)) = string_of ` set (new_Set (map Str ms))" by simp
  then show ?thesis by (simp add: image_image)
qed

subsection \<open>A failed call rejects the deleteValues promise\<close>

lemma first_rejection_mem:
  "t \<in> set ts \<Longrightarrow> outcome t = Some (Inl e) \<Longrightarrow> \<exists>e'. first_rejection ts = Some e'"
  by (induction ts) (auto split: option.splits sum.splits)

lemma join_rejected:
  "t \<in> set ts \<Longrightarrow> outcome t = Some (Inl e) \<Longrightarrow> \<exists>e'. join ts = Some (Inl e')"
  using first_rejection_mem[of t ts e] by (auto simp: join_def)

lemma dv_state_step_error:
  assumes "dv_state this rk d" "target q d = Some c"
  shows "\<exists>e'. outcome (deliver q (Inl e) d) = Some (Inl e')"
proof -
  from dv_state_target[OF assms]
  consider (read) "d = deleteValues this rk" "q = [0, 0, 0]"
    | (del) A kss cs oc i where "d = dv_pool A cs oc" "pool_ok kss cs oc"
        "q = [0, 1, i]" "i < length cs" "cs ! i = Await c"
    by blast
  then show ?thesis
  proof cases
    case read
    then show ?thesis using deleteValues_read_error[of e this rk] by simp
  next
    case del
    let ?cs1 = "cs[i := Settled (Inl e)]"
    from pool_step(3)[OF del(2,4,5), of "Inl e"] obtain cs' oc' where
      st: "settle (Some 100) ?cs1 oc = Par (Some 100) cs' oc'" by blast
    have nf: "\<forall>v. oc \<noteq> Some (Inr v)" by (rule pool_step(2)[OF del(2,4,5)])
    have "Settled (Inl e) \<in> set ?cs1" using del(4) by (simp add: set_update_memI)
    from join_rejected[OF this, of e] obtain e' where j: "join ?cs1 = Some (Inl e')" by auto
    have "\<exists>e''. oc' = Some (Inl e'')"
    proof (cases oc)
      case None
      with st show ?thesis by (auto simp add: settle_None j)
    next
      case (Some x)
      with nf st show ?thesis by (cases x) auto
    qed
    then show ?thesis using dv_pool_deliver[OF del(2,4,5) st, of A] del(1,3)
      by (auto simp: dv_pool_outcome)
  qed
qed

lemma perform_error_or_applied:
  assumes "perform this c w = (r, w')"
  shows "(\<exists>e. r = Inl e) \<or> faulty w (length (log w)) = None"
  using assms by (auto simp: perform_def split: option.splits)

lemma perform_GetNamespace:
  assumes "getNamespace this (kv w) = (Inr (Str ns), kv w)" "perform this GetNamespace w = (r, w')"
  shows "(\<exists>e. r = Inl e) \<or> (r = Inr (Str ns) \<and> kv w' = kv w)"
  using assms by (auto simp: perform_def split: option.splits)

lemma completeness_child_step:
  assumes ok: "dkr_ok this rks ds oc u" and i: "i < length ds"
    and tg: "target q (ds ! i) = Some c" and pf: "perform this c w = (r, w')"
    and r: "r = Inr v"
    and J: "kv w (prefixed this fk) = None \<or> (\<exists>d\<in>set ds. \<exists>ks. DEL ks \<in> set (planned d) \<and> fk \<in> set ks) \<or>
            (ds = map (deleteValues this) rks \<and> (\<forall>rk\<in>set rks. fk \<in> members (kv w) (prefixed this rk)))"
  shows "kv w' (prefixed this fk) = None \<or>
         (\<exists>d\<in>set (ds[i := deliver q r (ds ! i)]). \<exists>ks. DEL ks \<in> set (planned d) \<and> fk \<in> set ks)"
proof -
  let ?ds' = "ds[i := deliver q r (ds ! i)]"
  from ok have len: "length ds = length rks" by (rule dkr_ok_length)
  from ok i have st: "dv_state this (rks ! i) (ds ! i)"
    by (auto simp: dkr_ok_def list_all2_conv_all_nth)
  have other: "\<exists>d\<in>set ?ds'. \<exists>ks. DEL ks \<in> set (planned d) \<and> fk \<in> set ks"
    if j: "j < length ds" "j \<noteq> i" "DEL ks \<in> set (planned (ds ! j))" "fk \<in> set ks" for j ks
  proof -
    have "?ds' ! j \<in> set ?ds'" using j(1) by simp
    moreover have "?ds' ! j = ds ! j" using j(2) by simp
    ultimately show ?thesis using j(3,4) by metis
  qed
  have here: "\<exists>d\<in>set ?ds'. \<exists>ks. DEL ks \<in> set (planned d) \<and> fk \<in> set ks"
    if "DEL ks \<in> set (planned (deliver q r (ds ! i)))" "fk \<in> set ks" for ks
  proof -
    have "?ds' ! i \<in> set ?ds'" using i by (simp add: set_update_memI)
    moreover have "?ds' ! i = deliver q r (ds ! i)" using i by simp
    ultimately show ?thesis using that by metis
  qed
  from dv_state_target[OF st tg]
  consider (read) "ds ! i = deleteValues this (rks ! i)" "q = [0, 0, 0]" "c = SMEMBERS (rks ! i)"
    | (del) ks where "c = DEL ks" "ds ! i \<noteq> deleteValues this (rks ! i)"
  proof -
    assume a: "\<lbrakk>ds ! i = deleteValues this (rks ! i); q = [0, 0, 0]; c = SMEMBERS (rks ! i)\<rbrakk> \<Longrightarrow> thesis"
      and b: "\<And>ks. \<lbrakk>c = DEL ks; ds ! i \<noteq> deleteValues this (rks ! i)\<rbrakk> \<Longrightarrow> thesis"
    assume d: "(ds ! i = deleteValues this (rks ! i) \<and> q = [0, 0, 0] \<and> c = SMEMBERS (rks ! i)) \<or>
         (\<exists>A kss cs oc ia. ds ! i = dv_pool A cs oc \<and> planned A = [] \<and> pool_ok kss cs oc \<and>
            q = [0, 1, ia] \<and> ia < length cs \<and> cs ! ia = Await c \<and> c = DEL (kss ! ia))"
    show thesis
    proof (cases "ds ! i = deleteValues this (rks ! i)")
      case True
      with tg have "q = [0, 0, 0] \<and> c = SMEMBERS (rks ! i)" by (simp add: deleteValues_target)
      with True a show ?thesis by simp
    next
      case False
      with d obtain ks where "c = DEL ks" by auto
      with False b show ?thesis by simp
    qed
  qed
  then show ?thesis
  proof cases
    case read
    from perform_SMEMBERS[OF pf[unfolded read(3)]] r
    have kv: "kv w' = kv w" and rr: "r = Inr (Arr (map Str (membership (kv w) (prefixed this (rks ! i)))))"
      by auto
    let ?ms = "membership (kv w) (prefixed this (rks ! i))"
    from deleteValues_read_ok[of ?ms this "rks ! i"] obtain A where
      A: "planned A = []"
         "deliver [0, 0, 0] (Inr (Arr (map Str ?ms))) (deleteValues this (rks ! i)) =
            dv_pool A (initial_pool (chunk_keys ?ms)) (join (initial_pool (chunk_keys ?ms)))"
      by blast
    have pl: "set (planned (deliver q r (ds ! i))) = DEL ` set (chunk_keys ?ms)"
      using A read rr by (simp add: dv_pool_planned initial_pool_planned)
    from J show ?thesis
    proof (elim disjE)
      assume "kv w (prefixed this fk) = None" with kv show ?thesis by simp
    next
      assume "\<exists>d\<in>set ds. \<exists>ks. DEL ks \<in> set (planned d) \<and> fk \<in> set ks"
      then obtain j ks where j: "j < length ds" "DEL ks \<in> set (planned (ds ! j))" "fk \<in> set ks"
        by (metis in_set_conv_nth)
      have "j \<noteq> i" using j(2) read(1) by auto
      from other[OF j(1) this j(2,3)] show ?thesis by simp
    next
      assume a: "ds = map (deleteValues this) rks \<and> (\<forall>rk\<in>set rks. fk \<in> members (kv w) (prefixed this rk))"
      have "rks ! i \<in> set rks" using i len by simp
      with a have "fk \<in> set ?ms" by (simp add: members_membership)
      then have "fk \<in> set (concat (chunk_keys ?ms))" by (simp only: chunk_keys_set)
      then obtain ks where "ks \<in> set (chunk_keys ?ms)" "fk \<in> set ks" by auto
      with pl have "DEL ks \<in> set (planned (deliver q r (ds ! i)))" "fk \<in> set ks" by auto
      from here[OF this] show ?thesis by simp
    qed
  next
    case (del ks0)
    from perform_DEL[OF pf[unfolded del(1)]] r
    have keep: "\<And>k. kv w k = None \<Longrightarrow> kv w' k = None"
      and gone: "\<And>k. k \<in> set ks0 \<Longrightarrow> kv w' (prefixed this k) = None"
      by auto
    from J show ?thesis
    proof (elim disjE)
      assume "kv w (prefixed this fk) = None" with keep show ?thesis by simp
    next
      assume "\<exists>d\<in>set ds. \<exists>ks. DEL ks \<in> set (planned d) \<and> fk \<in> set ks"
      then obtain j ks where j: "j < length ds" "DEL ks \<in> set (planned (ds ! j))" "fk \<in> set ks"
        by (metis in_set_conv_nth)
      show ?thesis
      proof (cases "fk \<in> set ks0")
        case True with gone show ?thesis by simp
      next
        case False
        with j(3) have ne: "DEL ks \<noteq> c" using del(1) by auto
        show ?thesis
        proof (cases "j = i")
          case True
          with planned_deliver[OF tg _ ne, of r] j(2)
          have "DEL ks \<in> set (planned (deliver q r (ds ! i)))" by simp
          from here[OF this j(3)] show ?thesis by simp
        next
          case False
          from other[OF j(1) this j(2,3)] show ?thesis by simp
        qed
      qed
    next
      assume a: "ds = map (deleteValues this) rks \<and> (\<forall>rk\<in>set rks. fk \<in> members (kv w) (prefixed this rk))"
      then have "ds ! i = deleteValues this (rks ! i)" using i len by simp
      with del(2) show ?thesis by simp
    qed
  qed
qed

lemma completeness_child_error:
  assumes ok: "dkr_ok this rks ds oc u" and i: "i < length ds"
    and tg: "target q (ds ! i) = Some c"
    and ok': "dkr_ok this rks (ds[i := deliver q (Inl e) (ds ! i)]) oc' u'"
  shows "\<exists>e'. outcome (dkr_tree N rks (ds[i := deliver q (Inl e) (ds ! i)]) oc' u') = Some (Inl e')"
proof -
  let ?ds' = "ds[i := deliver q (Inl e) (ds ! i)]"
  from ok i have st: "dv_state this (rks ! i) (ds ! i)"
    by (auto simp: dkr_ok_def list_all2_conv_all_nth)
  from dv_state_step_error[OF st tg, of e] obtain e' where
    e': "outcome (deliver q (Inl e) (ds ! i)) = Some (Inl e')" by blast
  have "?ds' ! i \<in> set ?ds'" using i by (simp add: set_update_memI)
  moreover have "outcome (?ds' ! i) = Some (Inl e')" using i e' by simp
  moreover from ok' have "group_ok ?ds' oc'" by (simp add: dkr_ok_def)
  ultimately obtain e'' where "oc' = Some (Inl e'')" using group_ok_rejected by blast
  then show ?thesis by (simp add: dkr_tree_outcome)
qed

lemma completeness_inv_fire:
  assumes ns: "getNamespace this (kv w0) = (Inr (Str ns), kv w0)"
    and idx: "\<forall>rk\<in>set (refkeys this reference ns). fk \<in> members (kv w0) (prefixed this rk)"
    and inv: "completeness_inv this reference ns fk w0 c"
  shows "completeness_inv this reference ns fk w0 (fire this p (fst c) (snd c))"
proof -
  obtain t w where c: "c = (t, w)" by (cases c)
  obtain t' w' where f: "fire this p t w = (t', w')" by (cases "fire this p t w")
  let ?rks = "refkeys this reference ns"
  from inv[unfolded completeness_inv_def c fst_conv snd_conv]
  consider (rej) e where "outcome t = Some (Inl e)"
    | (init) "t = deleteKeysByReference this reference" "w = w0"
    | (tree) N ds oc u where "t = dkr_tree N ?rks ds oc u" "dkr_ok this ?rks ds oc u"
        "kv w (prefixed this fk) = None \<or> (\<exists>d\<in>set ds. \<exists>ks. DEL ks \<in> set (planned d) \<and> fk \<in> set ks) \<or>
         (ds = map (deleteValues this) ?rks \<and> (\<forall>rk\<in>set ?rks. fk \<in> members (kv w) (prefixed this rk)))"
        "\<forall>v. u = Settled (Inr v) \<longrightarrow> (\<forall>rk\<in>set ?rks. kv w (prefixed this rk) = None)"
    by blast
  then have "completeness_inv this reference ns fk w0 (t', w')"
  proof cases
    case rej
    from fire_cases[OF f] have "outcome t' = Some (Inl e)"
      using rej by (auto simp: outcome_deliver)
    then show ?thesis by (simp add: completeness_inv_def)
  next
    case init
    from fire_cases[OF f] show ?thesis
    proof (elim disjE conjE exE)
      assume "t' = t" "w' = w"
      with init show ?thesis by (simp add: completeness_inv_def)
    next
      fix c0 r assume a: "target p t = Some c0" "perform this c0 w = (r, w')" "t' = deliver p r t"
      from a(1) init have p: "p = [0, 0]" "c0 = GetNamespace" by (simp_all add: dkr_target0)
      from perform_GetNamespace[OF ns a(2)[unfolded p init(2)]]
      show ?thesis
      proof (elim disjE exE conjE)
        fix e assume "r = Inl e"
        then have "outcome t' = Some (Inl e)" using a(3) p init dkr_namespace_error[of e this reference]
          by simp
        then show ?thesis by (simp add: completeness_inv_def)
      next
        assume r: "r = Inr (Str ns)" and kv: "kv w' = kv w0"
        have t': "t' = dkr_tree (Settled (Inr (Str ns))) ?rks (map (deleteValues this) ?rks) None
                        (Await (DEL ?rks))"
          using a(3) p init r by (simp add: dkr_namespace_ok)
        have "\<exists>N ds oc u. t' = dkr_tree N ?rks ds oc u \<and> dkr_ok this ?rks ds oc u \<and>
                (kv w' (prefixed this fk) = None \<or> (\<exists>d\<in>set ds. \<exists>ks. DEL ks \<in> set (planned d) \<and> fk \<in> set ks) \<or>
                 (ds = map (deleteValues this) ?rks \<and> (\<forall>rk\<in>set ?rks. fk \<in> members (kv w') (prefixed this rk)))) \<and>
                (\<forall>v. u = Settled (Inr v) \<longrightarrow> (\<forall>rk\<in>set ?rks. kv w' (prefixed this rk) = None))"
          apply (rule exI[of _ "Settled (Inr (Str ns))"])
          apply (rule exI[of _ "map (deleteValues this) ?rks"])
          apply (rule exI[of _ None])
          apply (rule exI[of _ "Await (DEL ?rks)"])
          using t' kv idx dkr_ok_initial[of this reference ns] by simp
        then show ?thesis unfolding completeness_inv_def fst_conv snd_conv by blast
      qed
    qed
  next
    case tree
    from dkr_fire[OF tree(2) f[unfolded tree(1)]] show ?thesis
    proof (elim disjE exE conjE)
      assume "t' = dkr_tree N ?rks ds oc u" "w' = w"
      with tree(2,3,4) show ?thesis unfolding completeness_inv_def fst_conv snd_conv by blast
    next
      fix i q c0 r
      let ?ds' = "ds[i := deliver q r (ds ! i)]"
      let ?oc' = "case oc of Some x \<Rightarrow> Some x | None \<Rightarrow> join ?ds'"
      assume a: "i < length ds" "target q (ds ! i) = Some c0" "perform this c0 w = (r, w')"
        "t' = dkr_tree N ?rks ?ds' ?oc' (Await (DEL ?rks))"
        "dkr_ok this ?rks ?ds' ?oc' (Await (DEL ?rks))"
      show ?thesis
      proof (cases r)
        case (Inl e)
        from completeness_child_error[OF tree(2) a(1,2) a(5)[unfolded Inl], of N] a(4)[unfolded Inl]
        have "\<exists>e'. outcome t' = Some (Inl e')" by simp
        then show ?thesis by (simp add: completeness_inv_def)
      next
        case (Inr v)
        from completeness_child_step[OF tree(2) a(1,2,3) Inr tree(3)]
        have J': "kv w' (prefixed this fk) = None \<or> (\<exists>d\<in>set ?ds'. \<exists>ks. DEL ks \<in> set (planned d) \<and> fk \<in> set ks)" .
        have "\<exists>N ds oc u. t' = dkr_tree N ?rks ds oc u \<and> dkr_ok this ?rks ds oc u \<and>
                (kv w' (prefixed this fk) = None \<or> (\<exists>d\<in>set ds. \<exists>ks. DEL ks \<in> set (planned d) \<and> fk \<in> set ks) \<or>
                 (ds = map (deleteValues this) ?rks \<and> (\<forall>rk\<in>set ?rks. fk \<in> members (kv w') (prefixed this rk)))) \<and>
                (\<forall>v. u = Settled (Inr v) \<longrightarrow> (\<forall>rk\<in>set ?rks. kv w' (prefixed this rk) = None))"
          apply (rule exI[of _ N])
          apply (rule exI[of _ ?ds'])
          apply (rule exI[of _ ?oc'])
          apply (rule exI[of _ "Await (DEL ?rks)"])
          using a(4,5) J' by (simp, blast)
        then show ?thesis unfolding completeness_inv_def fst_conv snd_conv by blast
      qed
    next
      fix v r
      assume a: "oc = Some (Inr v)" "u = Await (DEL ?rks)" "perform this (DEL ?rks) w = (r, w')"
        "t' = dkr_tree N ?rks ds oc (Settled r)" "dkr_ok this ?rks ds oc (Settled r)"
      show ?thesis
      proof (cases r)
        case (Inl e)
        with a(1,4) have "outcome t' = Some (Inl e)" by (simp add: dkr_tree_outcome)
        then show ?thesis by (simp add: completeness_inv_def)
      next
        case (Inr v')
        from perform_DEL[OF a(3)] Inr
        have keep: "\<And>k. kv w k = None \<Longrightarrow> kv w' k = None"
          and gone: "\<forall>k\<in>set ?rks. kv w' (prefixed this k) = None"
          by auto
        from tree(2) a(1) have "group_ok ds (Some (Inr v))" by (simp add: dkr_ok_def)
        then have ful: "list_all fulfilled ds" by (rule group_ok_fulfilled)
        have notinit: "ds \<noteq> map (deleteValues this) ?rks"
        proof
          assume e: "ds = map (deleteValues this) ?rks"
          from refkeys_nonempty[of this reference ns] obtain rk where "rk \<in> set ?rks"
            by (cases ?rks) auto
          with e ful have "fulfilled (deleteValues this rk)" by (auto simp: list_all_iff)
          then show False by (simp add: fulfilled_def deleteValues_outcome)
        qed
        from tree(3) notinit keep
        have J': "kv w' (prefixed this fk) = None \<or> (\<exists>d\<in>set ds. \<exists>ks. DEL ks \<in> set (planned d) \<and> fk \<in> set ks)"
          by blast
        have "\<exists>N ds oc u. t' = dkr_tree N ?rks ds oc u \<and> dkr_ok this ?rks ds oc u \<and>
                (kv w' (prefixed this fk) = None \<or> (\<exists>d\<in>set ds. \<exists>ks. DEL ks \<in> set (planned d) \<and> fk \<in> set ks) \<or>
                 (ds = map (deleteValues this) ?rks \<and> (\<forall>rk\<in>set ?rks. fk \<in> members (kv w') (prefixed this rk)))) \<and>
                (\<forall>v. u = Settled (Inr v) \<longrightarrow> (\<forall>rk\<in>set ?rks. kv w' (prefixed this rk) = None))"
          apply (rule exI[of _ N])
          apply (rule exI[of _ ds])
          apply (rule exI[of _ oc])
          apply (rule exI[of _ "Settled r"])
          using a(4,5) gone J' by (simp, blast)
        then show ?thesis unfolding completeness_inv_def fst_conv snd_conv by blast
      qed
    qed
  qed
  then show ?thesis using c f by simp
qed

lemma completeness_inv_run:
  assumes ns: "getNamespace this (kv w0) = (Inr (Str ns), kv w0)"
    and idx: "\<forall>rk\<in>set (refkeys this reference ns). fk \<in> members (kv w0) (prefixed this rk)"
    and inv: "completeness_inv this reference ns fk w0 c"
  shows "completeness_inv this reference ns fk w0 (run this sched c)"
  using inv
proof (induction sched arbitrary: c)
  case Nil then show ?case by simp
next
  case (Cons p sched)
  obtain t w where c: "c = (t, w)" by (cases c)
  from completeness_inv_fire[OF ns idx Cons.prems, of p]
  have "completeness_inv this reference ns fk w0 (fire this p t w)" using c by simp
  from Cons.IH[OF this] show ?case using c by simp
qed

lemma completeness_inv_final:
  assumes inv: "completeness_inv this reference ns fk w0 c"
    and suc: "outcome (fst c) = Some (Inr v)"
  shows "kv (snd c) (prefixed this fk) = None \<and> (\<forall>rk\<in>set (refkeys this reference ns). kv (snd c) (prefixed this rk) = None)"
proof -
  let ?rks = "refkeys this reference ns"
  from suc have nrej: "\<not> (\<exists>e. outcome (fst c) = Some (Inl e))" by simp
  from suc have ninit: "fst c \<noteq> deleteKeysByReference this reference"
    by (auto simp: dkr_outcome0)
  from inv[unfolded completeness_inv_def] nrej ninit obtain N ds oc u where
    t: "fst c = dkr_tree N ?rks ds oc u" and ok: "dkr_ok this ?rks ds oc u"
    and J: "kv (snd c) (prefixed this fk) = None \<or> (\<exists>d\<in>set ds. \<exists>ks. DEL ks \<in> set (planned d) \<and> fk \<in> set ks) \<or>
         (ds = map (deleteValues this) ?rks \<and> (\<forall>rk\<in>set ?rks. fk \<in> members (kv (snd c)) (prefixed this rk)))"
    and R: "\<forall>v. u = Settled (Inr v) \<longrightarrow> (\<forall>rk\<in>set ?rks. kv (snd c) (prefixed this rk) = None)"
    by blast
  from suc t obtain v1 v2 where oc: "oc = Some (Inr v1)" and u: "outcome u = Some (Inr v2)"
    by (auto simp: dkr_tree_outcome split: option.splits sum.splits)
  from ok u have "u = Settled (Inr v2)" by (auto simp: dkr_ok_def)
  with R have refs: "\<forall>rk\<in>set ?rks. kv (snd c) (prefixed this rk) = None" by simp
  from ok oc have "group_ok ds (Some (Inr v1))" by (simp add: dkr_ok_def)
  then have ful: "list_all fulfilled ds" by (rule group_ok_fulfilled)
  have st: "\<And>d. d \<in> set ds \<Longrightarrow> \<exists>rk. dv_state this rk d"
    using ok by (auto simp: dkr_ok_def list_all2_conv_all_nth in_set_conv_nth)
  have noplan: "\<And>d. d \<in> set ds \<Longrightarrow> planned d = []"
  proof -
    fix d assume d: "d \<in> set ds"
    from st[OF d] obtain rk where "dv_state this rk d" by blast
    moreover from ful d have "fulfilled d" by (simp add: list_all_iff)
    ultimately show "planned d = []" by (rule dv_state_fulfilled(1))
  qed
  have notinit: "ds \<noteq> map (deleteValues this) ?rks"
  proof
    assume e: "ds = map (deleteValues this) ?rks"
    from refkeys_nonempty[of this reference ns] obtain rk where "rk \<in> set ?rks"
      by (cases ?rks) auto
    with e ful have "fulfilled (deleteValues this rk)" by (auto simp: list_all_iff)
    then show False by (simp add: fulfilled_def deleteValues_outcome)
  qed
  from J noplan notinit have "kv (snd c) (prefixed this fk) = None" by fastforce
  with refs show ?thesis by simp
qed

lemma completeness_inv_start: "completeness_inv this reference ns fk w (deleteKeysByReference this reference, w)"
  by (simp add: completeness_inv_def)

text \<open>
  What a fulfilled \<^verbatim>\<open>deleteKeysByReference\<close> has removed, under every order of the replies:
  for a member \<open>fk\<close> of the reference set of every segment, the key that the \<^verbatim>\<open>del\<close> of \<open>fk\<close>
  reaches, which is \<open>fk\<close> with the client's prefix before it, and the reference keys.
\<close>

lemma deleteKeysByReference_removes_reached_keys:
  assumes "getNamespace this (kv w) = (Inr (Str ns), kv w)"
    and "\<forall>rk\<in>set (refkeys this reference ns). fk \<in> members (kv w) (prefixed this rk)"
    and "outcome (fst (run this sched (deleteKeysByReference this reference, w))) = Some (Inr v)"
  shows "kv (snd (run this sched (deleteKeysByReference this reference, w))) (prefixed this fk) = None \<and>
         (\<forall>rk\<in>set (refkeys this reference ns).
            kv (snd (run this sched (deleteKeysByReference this reference, w))) (prefixed this rk) = None)"
  using completeness_inv_final[OF completeness_inv_run[OF assms(1,2) completeness_inv_start] assms(3)]
  by simp

text \<open>With an empty key prefix the key reached is the member itself, so the full key of an
  indexed entry is gone after a fulfilled \<^verbatim>\<open>deleteKeysByReference\<close>.\<close>

lemma deleteKeysByReference_complete_without_prefix:
  assumes "keyPrefix this = []"
    and "getNamespace this (kv w) = (Inr (Str ns), kv w)"
    and "\<forall>rk\<in>set (refkeys this reference ns). fullKey this ns k \<in> members (kv w) rk"
    and "outcome (fst (run this sched (deleteKeysByReference this reference, w))) = Some (Inr v)"
  shows "kv (snd (run this sched (deleteKeysByReference this reference, w))) (fullKey this ns k) = None \<and>
         (\<forall>rk\<in>set (refkeys this reference ns).
            kv (snd (run this sched (deleteKeysByReference this reference, w))) rk = None)"
proof -
  have p: "prefixed this x = x" for x using assms(1) by (simp add: prefixed_def)
  have "\<forall>rk\<in>set (refkeys this reference ns).
          fullKey this ns k \<in> members (kv w) (prefixed this rk)"
    using assms(3) by (simp add: p)
  from deleteKeysByReference_removes_reached_keys[OF assms(2) this assms(4)]
  show ?thesis by (simp add: p)
qed

text \<open>
  C1. Flush completeness does not hold when the client has a key prefix. \<^verbatim>\<open>pushKeys\<close>
  records as member the full key, which begins with \<^verbatim>\<open>options.keyPrefix\<close>, and
  \<^verbatim>\<open>deleteValues\<close> hands the members to \<^verbatim>\<open>del\<close> of the same client, which puts the
  prefix before them once more. In the example the prefix is \<^verbatim>\<open>cache:\<close>; the entry of
  \<^verbatim>\<open>u:42\<close> is in the store under its full key \<^verbatim>\<open>cache:#users|premium:u:42\<close>, and that
  full key is a member of the Standard reference set of both segments of
  \<^verbatim>\<open>users|premium\<close>. \<^verbatim>\<open>deleteKeysByReference\<close> for the Standard class reads both sets,
  sends a \<^verbatim>\<open>del\<close> for their members and then for the reference keys, every call succeeds
  and the promise is fulfilled. The reference keys are gone, but the entry is still in the
  store under its full key: the \<^verbatim>\<open>del\<close> of the member reached
  \<^verbatim>\<open>cache:cache:#users|premium:u:42\<close>.
\<close>

theorem deleteKeysByReference_leaves_prefixed_entry:
  "keyPrefix example_cache = ''cache:'' \<and>
   getNamespace example_cache (kv example_world) = (Inr (Str ''users|premium''), kv example_world) \<and>
   fullKey example_cache ''users|premium'' ''u:42'' = ''cache:#users|premium:u:42'' \<and>
   refkeys example_cache REFERENCE_KEY_STANDARD ''users|premium'' =
     [''tag:users:standard_ref'', ''tag:premium:standard_ref''] \<and>
   fullKey example_cache ''users|premium'' ''u:42'' \<in>
     members (kv example_world) (prefixed example_cache ''tag:users:standard_ref'') \<and>
   fullKey example_cache ''users|premium'' ''u:42'' \<in>
     members (kv example_world) (prefixed example_cache ''tag:premium:standard_ref'') \<and>
   kv example_world (fullKey example_cache ''users|premium'' ''u:42'') = Some (StringValue ''a'') \<and>
   outcome (fst (run example_cache
       [[0, 0], [0, 1, 0, 0, 0, 0, 0], [0, 1, 0, 1, 0, 0, 0], [0, 1, 0, 1, 0, 1, 0],
        [0, 1, 0, 0, 0, 1, 0], [0, 1, 1]]
       (deleteKeysByReference example_cache REFERENCE_KEY_STANDARD, example_world))) =
     Some (Inr Undefined) \<and>
   completed example_world (snd (run example_cache
       [[0, 0], [0, 1, 0, 0, 0, 0, 0], [0, 1, 0, 1, 0, 0, 0], [0, 1, 0, 1, 0, 1, 0],
        [0, 1, 0, 0, 0, 1, 0], [0, 1, 1]]
       (deleteKeysByReference example_cache REFERENCE_KEY_STANDARD, example_world))) =
     [(GetNamespace, Inr (Str ''users|premium'')),
      (SMEMBERS ''tag:users:standard_ref'',
         Inr (Arr [Str ''cache:#users|premium:u:42'', Str ''cache:#users|premium:u:7'',
                   Str ''cache:#users|premium:u:42''])),
      (SMEMBERS ''tag:premium:standard_ref'', Inr (Arr [Str ''cache:#users|premium:u:42''])),
      (DEL [''cache:#users|premium:u:42''], Inr (Num 0)),
      (DEL [''cache:#users|premium:u:42'', ''cache:#users|premium:u:7''], Inr (Num 0)),
      (DEL [''tag:users:standard_ref'', ''tag:premium:standard_ref''], Inr (Num 2))] \<and>
   kv (snd (run example_cache
       [[0, 0], [0, 1, 0, 0, 0, 0, 0], [0, 1, 0, 1, 0, 0, 0], [0, 1, 0, 1, 0, 1, 0],
        [0, 1, 0, 0, 0, 1, 0], [0, 1, 1]]
       (deleteKeysByReference example_cache REFERENCE_KEY_STANDARD, example_world)))
     (fullKey example_cache ''users|premium'' ''u:42'') = Some (StringValue ''a'') \<and>
   kv (snd (run example_cache
       [[0, 0], [0, 1, 0, 0, 0, 0, 0], [0, 1, 0, 1, 0, 0, 0], [0, 1, 0, 1, 0, 1, 0],
        [0, 1, 0, 0, 0, 1, 0], [0, 1, 1]]
       (deleteKeysByReference example_cache REFERENCE_KEY_STANDARD, example_world)))
     (prefixed example_cache ''tag:users:standard_ref'') = None \<and>
   kv (snd (run example_cache
       [[0, 0], [0, 1, 0, 0, 0, 0, 0], [0, 1, 0, 1, 0, 0, 0], [0, 1, 0, 1, 0, 1, 0],
        [0, 1, 0, 0, 0, 1, 0], [0, 1, 1]]
       (deleteKeysByReference example_cache REFERENCE_KEY_STANDARD, example_world)))
     (prefixed example_cache ''tag:premium:standard_ref'') = None"
proof -
  let ?C = "run example_cache
       [[0, 0], [0, 1, 0, 0, 0, 0, 0], [0, 1, 0, 1, 0, 0, 0], [0, 1, 0, 1, 0, 1, 0],
        [0, 1, 0, 0, 0, 1, 0], [0, 1, 1]]
       (deleteKeysByReference example_cache REFERENCE_KEY_STANDARD, example_world)"
  have a: "keyPrefix example_cache = ''cache:''" by (simp add: example_cache_def)
  have b: "getNamespace example_cache (kv example_world) =
             (Inr (Str ''users|premium''), kv example_world)"
    by (simp add: example_cache_def)
  have c: "fullKey example_cache ''users|premium'' ''u:42'' = ''cache:#users|premium:u:42''"
    by code_simp
  have d: "refkeys example_cache REFERENCE_KEY_STANDARD ''users|premium'' =
     [''tag:users:standard_ref'', ''tag:premium:standard_ref'']" by code_simp
  have e: "fullKey example_cache ''users|premium'' ''u:42'' \<in>
     members (kv example_world) (prefixed example_cache ''tag:users:standard_ref'')" by code_simp
  have f: "fullKey example_cache ''users|premium'' ''u:42'' \<in>
     members (kv example_world) (prefixed example_cache ''tag:premium:standard_ref'')" by code_simp
  have g: "kv example_world (fullKey example_cache ''users|premium'' ''u:42'') =
     Some (StringValue ''a'')" by code_simp
  have h: "outcome (fst ?C) = Some (Inr Undefined)" by code_simp
  have i: "completed example_world (snd ?C) =
     [(GetNamespace, Inr (Str ''users|premium'')),
      (SMEMBERS ''tag:users:standard_ref'',
         Inr (Arr [Str ''cache:#users|premium:u:42'', Str ''cache:#users|premium:u:7'',
                   Str ''cache:#users|premium:u:42''])),
      (SMEMBERS ''tag:premium:standard_ref'', Inr (Arr [Str ''cache:#users|premium:u:42''])),
      (DEL [''cache:#users|premium:u:42''], Inr (Num 0)),
      (DEL [''cache:#users|premium:u:42'', ''cache:#users|premium:u:7''], Inr (Num 0)),
      (DEL [''tag:users:standard_ref'', ''tag:premium:standard_ref''], Inr (Num 2))]"
    by code_simp
  have j: "kv (snd ?C) (fullKey example_cache ''users|premium'' ''u:42'') =
     Some (StringValue ''a'')" by code_simp
  have k: "kv (snd ?C) (prefixed example_cache ''tag:users:standard_ref'') = None" by code_simp
  have l: "kv (snd ?C) (prefixed example_cache ''tag:premium:standard_ref'') = None" by code_simp
  show ?thesis by (intro conjI a b c d e f g h i j k l)
qed
section \<open>Absent and empty reference sets\<close>

subsection \<open>deleteValues on an absent or empty reference set\<close>

lemma chunk_keys_Nil [simp]: "chunk_keys [] = []"
  using chunks_of_props[of "[]"] by (simp add: chunk_keys_def new_Set_Nil)

lemma initial_pool_Nil [simp]: "initial_pool [] = []"
  by (simp add: initial_pool_def)

lemma join_Nil [simp]: "join [] = Some (Inr (Arr []))"
  by (simp add: join_def)

lemma deleteValues_read_empty:
  "outcome (deliver [0, 0, 0] (Inr (Arr [])) (deleteValues this rk)) = Some (Inr Undefined)"
  using deleteValues_read_ok[of "[]" this rk] by (auto simp: dv_pool_outcome)

lemma run_inert: "inert t \<Longrightarrow> run this sched (t, w) = (t, w)"
  by (induction sched) (simp_all add: fire_inert)

lemma deleteValues_run_cases:
  assumes "inert (fst (fire this [0, 0, 0] (deleteValues this rk) w))"
  shows "run this sched (deleteValues this rk, w) = (deleteValues this rk, w) \<and> [0, 0, 0] \<notin> set sched \<or>
         run this sched (deleteValues this rk, w) = fire this [0, 0, 0] (deleteValues this rk) w \<and>
           [0, 0, 0] \<in> set sched"
proof (induction sched)
  case Nil then show ?case by simp
next
  case (Cons p sched)
  show ?case
  proof (cases "p = [0, 0, 0]")
    case True
    obtain t1 w1 where f: "fire this [0, 0, 0] (deleteValues this rk) w = (t1, w1)" by force
    with assms have "inert t1" by simp
    from run_inert[OF this, of this sched w1] f True show ?thesis by simp
  next
    case False
    then have "target p (deleteValues this rk) = None"
      by (simp add: target_None_iff deleteValues_target)
    then have "fire this p (deleteValues this rk) w = (deleteValues this rk, w)"
      by (simp add: fire_def)
    with Cons False show ?thesis by simp
  qed
qed

lemma deleteValues_empty_fire:
  assumes m: "membership (kv w) (prefixed this rk) = []"
  shows "inert (fst (fire this [0, 0, 0] (deleteValues this rk) w))"
    and "inflight (fst (fire this [0, 0, 0] (deleteValues this rk) w)) = []"
    and "completed w (snd (fire this [0, 0, 0] (deleteValues this rk) w)) =
           [(SMEMBERS rk, fst (perform this (SMEMBERS rk) w))]"
    and "faulty w (length (log w)) = None \<Longrightarrow> \<not> holds_string (kv w) (prefixed this rk) \<Longrightarrow>
         outcome (fst (fire this [0, 0, 0] (deleteValues this rk) w)) = Some (Inr Undefined)"
proof -
  obtain r w1 where pf: "perform this (SMEMBERS rk) w = (r, w1)" by force
  have tg: "target [0, 0, 0] (deleteValues this rk) = Some (SMEMBERS rk)"
    by (simp add: deleteValues_target)
  have f: "fire this [0, 0, 0] (deleteValues this rk) w =
             (deliver [0, 0, 0] r (deleteValues this rk), w1)"
    using tg pf by (simp add: fire_def)
  from deleteValues_read_ok[of "[]" this rk] obtain A where
    A: "deliver [0, 0, 0] (Inr (Arr [])) (deleteValues this rk) = dv_pool A [] (Some (Inr (Arr [])))"
    by auto
  have pk: "pool_ok [] [] (Some (Inr (Arr [])))" using initial_pool_ok[of "[]"] by simp
  have in0: "inert (dv_pool A [] (Some (Inr (Arr []))))"
    unfolding inert_def using dv_pool_target[OF pk, of _ A] by (simp add: target_None_iff)
  have if0: "inflight (dv_pool A [] (Some (Inr (Arr [])))) = []"
    using dv_pool_inflight_eq[OF pk, of A] by simp
  from perform_SMEMBERS[OF pf] m
  consider (err) e where "r = Inl e" | (ok) "r = Inr (Arr [])" by auto
  note cases = this
  show "inert (fst (fire this [0, 0, 0] (deleteValues this rk) w))"
  proof (cases rule: cases)
    case err then show ?thesis using f deleteValues_read_error[of e this rk] by simp
  next
    case ok then show ?thesis using f A in0 by simp
  qed
  show "inflight (fst (fire this [0, 0, 0] (deleteValues this rk) w)) = []"
  proof (cases rule: cases)
    case err then show ?thesis using f deleteValues_read_error_inflight[of e this rk] by simp
  next
    case ok then show ?thesis using f A if0 by simp
  qed
  show "completed w (snd (fire this [0, 0, 0] (deleteValues this rk) w)) =
           [(SMEMBERS rk, fst (perform this (SMEMBERS rk) w))]"
    using f pf completed_perform[of w this "SMEMBERS rk"] by simp
  assume nf: "faulty w (length (log w)) = None" and ns: "\<not> holds_string (kv w) (prefixed this rk)"
  from perform_SMEMBERS_ok[OF nf ns] pf m have "r = Inr (Arr [])" by simp
  then show "outcome (fst (fire this [0, 0, 0] (deleteValues this rk) w)) = Some (Inr Undefined)"
    using f deleteValues_read_empty[of this rk] by simp
qed

lemma deleteValues_empty_calls:
  assumes m: "membership (kv w) (prefixed this rk) = []"
  shows "calls_made w (run this sched (deleteValues this rk, w)) = [SMEMBERS rk]"
    and "[0, 0, 0] \<in> set sched \<Longrightarrow> faulty w (length (log w)) = None \<Longrightarrow> \<not> holds_string (kv w) (prefixed this rk) \<Longrightarrow>
         outcome (fst (run this sched (deleteValues this rk, w))) = Some (Inr Undefined)"
proof -
  note ef = deleteValues_empty_fire[OF m]
  note rc = deleteValues_run_cases[OF ef(1), of sched]
  show "calls_made w (run this sched (deleteValues this rk, w)) = [SMEMBERS rk]"
    using rc ef(2,3) by (auto simp: calls_made_def)
  assume "[0, 0, 0] \<in> set sched" "faulty w (length (log w)) = None" "\<not> holds_string (kv w) (prefixed this rk)"
  then show "outcome (fst (run this sched (deleteValues this rk, w))) = Some (Inr Undefined)"
    using rc ef(4) by auto
qed

subsection \<open>deleteKeysByReference when every reference set is absent or empty\<close>

lemma perform_GetNamespace_ok:
  assumes "faulty w (length (log w)) = None"
    and "getNamespace this (kv w) = (Inr (Str ns), kv w)"
    and "perform this GetNamespace w = (r, w')"
  shows "r = Inr (Str ns) \<and> kv w' = kv w"
  using assms by (auto simp: perform_def)

lemma perform_DEL_ok:
  assumes "faulty w (length (log w)) = None" "ks \<noteq> []" "perform this (DEL ks) w = (r, w')"
  shows "\<exists>v. r = Inr v"
  using assms by (auto simp: perform_def del_def)

lemma membership_absent: "s k = None \<Longrightarrow> membership s k = [] \<and> \<not> holds_string s k"
  by (simp add: membership_def holds_string_def)

lemma empty_sets_inv_fire:
  assumes ns: "getNamespace this (kv w0) = (Inr (Str ns), kv w0)"
    and inv: "empty_sets_inv this reference ns w0 c"
  shows "empty_sets_inv this reference ns w0 (fire this p (fst c) (snd c))"
proof -
  obtain t w where c: "c = (t, w)" by (cases c)
  obtain t' w' where f: "fire this p t w = (t', w')" by (cases "fire this p t w")
  let ?rks = "refkeys this reference ns"
  let ?okc = "\<lambda>e. (fst e = GetNamespace \<or> fst e \<in> SMEMBERS ` set ?rks \<or> fst e = DEL ?rks) \<and>
                    (\<exists>v. snd e = Inr v)"
  note inv' = inv[unfolded empty_sets_inv_def c fst_conv snd_conv]
  from inv'
  have nf: "\<forall>n. faulty w n = None"
    and em: "\<forall>rk\<in>set ?rks. membership (kv w) (prefixed this rk) = [] \<and> \<not> holds_string (kv w) (prefixed this rk)"
    and shape: "(t = deleteKeysByReference this reference \<and> w = w0) \<or>
       (\<exists>N ds oc u. t = dkr_tree N ?rks ds oc u \<and> dkr_ok this ?rks ds oc u \<and>
          (\<forall>i<length ds. ds ! i = deleteValues this (?rks ! i) \<or> fulfilled (ds ! i)) \<and>
          (u = Await (DEL ?rks) \<or>
           (\<exists>v. u = Settled (Inr v) \<and> (DEL ?rks, Inr v) \<in> set (completed w0 w) \<and>
                (\<forall>rk\<in>set ?rks. kv w (prefixed this rk) = None))))"
    by (rule conjunct1, rule conjunct1[OF conjunct2], rule conjunct2[OF conjunct2[OF conjunct2]])
  from inv[unfolded empty_sets_inv_def c fst_conv snd_conv]
  obtain es where es: "log w = log w0 @ es" "\<forall>e\<in>set es. ?okc e" by blast
  have comp: "completed w0 w = es" using es(1) by (simp add: completed_def)
  have stutter: "empty_sets_inv this reference ns w0 (t, w)" using inv c by simp
  have step: "empty_sets_inv this reference ns w0 (t', w')"
    if pf: "perform this c0 w = (r, w')" and r: "\<exists>v. r = Inr v"
      and c0: "c0 = GetNamespace \<or> c0 \<in> SMEMBERS ` set ?rks \<or> c0 = DEL ?rks"
      and em': "\<forall>rk\<in>set ?rks. membership (kv w') (prefixed this rk) = [] \<and> \<not> holds_string (kv w') (prefixed this rk)"
      and sh: "\<exists>N ds oc u. t' = dkr_tree N ?rks ds oc u \<and> dkr_ok this ?rks ds oc u \<and>
          (\<forall>i<length ds. ds ! i = deleteValues this (?rks ! i) \<or> fulfilled (ds ! i)) \<and>
          (u = Await (DEL ?rks) \<or>
           (\<exists>v. u = Settled (Inr v) \<and> (DEL ?rks, Inr v) \<in> set (es @ [(c0, r)]) \<and>
                (\<forall>rk\<in>set ?rks. kv w' (prefixed this rk) = None)))"
    for c0 r
  proof -
    from perform_log[OF pf] have lg: "log w' = log w0 @ (es @ [(c0, r)])" and fl: "faulty w' = faulty w"
      using es(1) by simp_all
    have comp': "completed w0 w' = es @ [(c0, r)]" using lg by (simp add: completed_def)
    have okc: "\<forall>e\<in>set (es @ [(c0, r)]). ?okc e" using es(2) r c0 by auto
    have 1: "\<forall>n. faulty w' n = None" using nf fl by simp
    have 3: "\<exists>es'. log w' = log w0 @ es' \<and> (\<forall>e\<in>set es'. ?okc e)"
      using lg okc by blast
    show ?thesis unfolding empty_sets_inv_def fst_conv snd_conv comp'
      using 1 em' 3 sh by blast
  qed
  from shape consider (init) "t = deleteKeysByReference this reference" "w = w0"
    | (tree) N ds oc u where "t = dkr_tree N ?rks ds oc u" "dkr_ok this ?rks ds oc u"
      "\<forall>i<length ds. ds ! i = deleteValues this (?rks ! i) \<or> fulfilled (ds ! i)"
      "u = Await (DEL ?rks) \<or>
           (\<exists>v. u = Settled (Inr v) \<and> (DEL ?rks, Inr v) \<in> set (completed w0 w) \<and>
                (\<forall>rk\<in>set ?rks. kv w (prefixed this rk) = None))"
    by blast
  then have "empty_sets_inv this reference ns w0 (t', w')"
  proof cases
    case init
    from fire_cases[OF f] show ?thesis
    proof (elim disjE conjE exE)
      assume "t' = t" "w' = w"
      with stutter show ?thesis by simp
    next
      fix c0 r assume a: "target p t = Some c0" "perform this c0 w = (r, w')" "t' = deliver p r t"
      from a(1) init have p: "p = [0, 0]" "c0 = GetNamespace" by (simp_all add: dkr_target0)
      from nf have nf0: "faulty w (length (log w)) = None" by simp
      from perform_GetNamespace_ok[OF nf0 ns[folded init(2)] a(2)[unfolded p]]
      have r: "r = Inr (Str ns)" and kv: "kv w' = kv w" by simp_all
      have t': "t' = dkr_tree (Settled (Inr (Str ns))) ?rks (map (deleteValues this) ?rks) None
                      (Await (DEL ?rks))"
        using a(3) p init r by (simp add: dkr_namespace_ok)
      show ?thesis
      proof (rule step[OF a(2)])
        show "\<exists>v. r = Inr v" using r by simp
        show "c0 = GetNamespace \<or> c0 \<in> SMEMBERS ` set ?rks \<or> c0 = DEL ?rks" using p by simp
        show "\<forall>rk\<in>set ?rks. membership (kv w') (prefixed this rk) = [] \<and> \<not> holds_string (kv w') (prefixed this rk)"
          using em kv by simp
        show "\<exists>N ds oc u. t' = dkr_tree N ?rks ds oc u \<and> dkr_ok this ?rks ds oc u \<and>
          (\<forall>i<length ds. ds ! i = deleteValues this (?rks ! i) \<or> fulfilled (ds ! i)) \<and>
          (u = Await (DEL ?rks) \<or>
           (\<exists>v. u = Settled (Inr v) \<and> (DEL ?rks, Inr v) \<in> set (es @ [(c0, r)]) \<and>
                (\<forall>rk\<in>set ?rks. kv w' (prefixed this rk) = None)))"
          apply (rule exI[of _ "Settled (Inr (Str ns))"])
          apply (rule exI[of _ "map (deleteValues this) ?rks"])
          apply (rule exI[of _ None])
          apply (rule exI[of _ "Await (DEL ?rks)"])
          using t' dkr_ok_initial[of this reference ns] by simp
      qed
    qed
  next
    case tree
    from tree(2) have len: "length ds = length ?rks" by (rule dkr_ok_length)
    from nf have nf0: "faulty w (length (log w)) = None" by simp
    from dkr_fire[OF tree(2) f[unfolded tree(1)]] show ?thesis
    proof (elim disjE exE conjE)
      assume "t' = dkr_tree N ?rks ds oc u" "w' = w"
      with stutter tree(1) show ?thesis by simp
    next
      fix i q c0 r
      let ?ds' = "ds[i := deliver q r (ds ! i)]"
      let ?oc' = "case oc of Some x \<Rightarrow> Some x | None \<Rightarrow> join ?ds'"
      assume a: "i < length ds" "target q (ds ! i) = Some c0" "perform this c0 w = (r, w')"
        "t' = dkr_tree N ?rks ?ds' ?oc' (Await (DEL ?rks))"
        "dkr_ok this ?rks ?ds' ?oc' (Await (DEL ?rks))"
      from tree(2) a(1) have st: "dv_state this (?rks ! i) (ds ! i)"
        by (auto simp: dkr_ok_def list_all2_conv_all_nth)
      have "\<not> fulfilled (ds ! i)"
        using dv_state_fulfilled(2)[OF st] a(2) by (auto simp: inert_def)
      with tree(3) a(1) have di: "ds ! i = deleteValues this (?rks ! i)" by blast
      with a(2) have q: "q = [0, 0, 0]" "c0 = SMEMBERS (?rks ! i)"
        by (simp_all add: deleteValues_target)
      have rki: "?rks ! i \<in> set ?rks" using a(1) len by simp
      with em have m: "membership (kv w) (prefixed this (?rks ! i)) = []" "\<not> holds_string (kv w) (prefixed this (?rks ! i))"
        by simp_all
      from perform_SMEMBERS_ok[OF nf0 m(2)] a(3) q m(1) have r: "r = Inr (Arr [])" by simp
      from perform_SMEMBERS[OF a(3)[unfolded q]] have kv: "kv w' = kv w" by simp
      have ful: "fulfilled (deliver q r (ds ! i))"
        using deleteValues_read_empty[of this "?rks ! i"] q r di by (simp add: fulfilled_def)
      show ?thesis
      proof (rule step[OF a(3)])
        show "\<exists>v. r = Inr v" using r by simp
        show "c0 = GetNamespace \<or> c0 \<in> SMEMBERS ` set ?rks \<or> c0 = DEL ?rks" using q rki by simp
        show "\<forall>rk\<in>set ?rks. membership (kv w') (prefixed this rk) = [] \<and> \<not> holds_string (kv w') (prefixed this rk)"
          using em kv by simp
        have ch: "\<forall>j<length ?ds'. ?ds' ! j = deleteValues this (?rks ! j) \<or> fulfilled (?ds' ! j)"
        proof (intro allI impI)
          fix j assume "j < length ?ds'"
          then show "?ds' ! j = deleteValues this (?rks ! j) \<or> fulfilled (?ds' ! j)"
            using tree(3) ful a(1) by (cases "j = i") simp_all
        qed
        show "\<exists>N ds oc u. t' = dkr_tree N ?rks ds oc u \<and> dkr_ok this ?rks ds oc u \<and>
          (\<forall>i<length ds. ds ! i = deleteValues this (?rks ! i) \<or> fulfilled (ds ! i)) \<and>
          (u = Await (DEL ?rks) \<or>
           (\<exists>v. u = Settled (Inr v) \<and> (DEL ?rks, Inr v) \<in> set (es @ [(c0, r)]) \<and>
                (\<forall>rk\<in>set ?rks. kv w' (prefixed this rk) = None)))"
          apply (rule exI[of _ N])
          apply (rule exI[of _ ?ds'])
          apply (rule exI[of _ ?oc'])
          apply (rule exI[of _ "Await (DEL ?rks)"])
          using a(4,5) ch by simp
      qed
    next
      fix v r
      assume a: "oc = Some (Inr v)" "u = Await (DEL ?rks)" "perform this (DEL ?rks) w = (r, w')"
        "t' = dkr_tree N ?rks ds oc (Settled r)" "dkr_ok this ?rks ds oc (Settled r)"
      from perform_DEL_ok[OF nf0 refkeys_nonempty a(3)] obtain v' where r: "r = Inr v'" by blast
      from perform_DEL[OF a(3)] r have gone: "\<forall>k\<in>set ?rks. kv w' (prefixed this k) = None" by simp
      have h1: "\<exists>v. r = Inr v" using r by simp
      have h2: "DEL ?rks = GetNamespace \<or> DEL ?rks \<in> SMEMBERS ` set ?rks \<or> DEL ?rks = DEL ?rks" by simp
      have h3: "\<forall>rk\<in>set ?rks. membership (kv w') (prefixed this rk) = [] \<and> \<not> holds_string (kv w') (prefixed this rk)"
        using gone membership_absent by blast
      have h4: "\<exists>N ds oc u. t' = dkr_tree N ?rks ds oc u \<and> dkr_ok this ?rks ds oc u \<and>
          (\<forall>i<length ds. ds ! i = deleteValues this (?rks ! i) \<or> fulfilled (ds ! i)) \<and>
          (u = Await (DEL ?rks) \<or>
           (\<exists>v. u = Settled (Inr v) \<and> (DEL ?rks, Inr v) \<in> set (es @ [(DEL ?rks, r)]) \<and>
                (\<forall>rk\<in>set ?rks. kv w' (prefixed this rk) = None)))"
        apply (rule exI[of _ N])
        apply (rule exI[of _ ds])
        apply (rule exI[of _ oc])
        apply (rule exI[of _ "Settled r"])
        using a(4,5) tree(3) gone r by simp
      show ?thesis by (rule step[OF a(3) h1 h2 h3 h4])
    qed
  qed
  then show ?thesis using c f by simp
qed

lemma empty_sets_inv_run:
  assumes ns: "getNamespace this (kv w0) = (Inr (Str ns), kv w0)"
    and inv: "empty_sets_inv this reference ns w0 c"
  shows "empty_sets_inv this reference ns w0 (run this sched c)"
  using inv
proof (induction sched arbitrary: c)
  case Nil then show ?case by simp
next
  case (Cons p sched)
  obtain t w where c: "c = (t, w)" by (cases c)
  from empty_sets_inv_fire[OF ns Cons.prems, of p]
  have "empty_sets_inv this reference ns w0 (fire this p t w)" using c by simp
  from Cons.IH[OF this] show ?case using c by simp
qed

lemma empty_sets_inv_start:
  assumes "\<forall>n. faulty w n = None"
    and "\<forall>rk\<in>set (refkeys this reference ns). membership (kv w) (prefixed this rk) = [] \<and> \<not> holds_string (kv w) (prefixed this rk)"
  shows "empty_sets_inv this reference ns w (deleteKeysByReference this reference, w)"
  using assms by (simp add: empty_sets_inv_def)

lemma empty_sets_inv_final:
  assumes inv: "empty_sets_inv this reference ns w0 (t, w)"
  shows "\<forall>e. outcome t \<noteq> Some (Inl e)"
    and "\<forall>e\<in>set (completed w0 w).
           (fst e = GetNamespace \<or> fst e \<in> SMEMBERS ` set (refkeys this reference ns) \<or>
            fst e = DEL (refkeys this reference ns)) \<and> (\<exists>v. snd e = Inr v)"
    and "inflight t = [] \<Longrightarrow>
         outcome t = Some (Inr Undefined) \<and>
         (\<exists>v. (DEL (refkeys this reference ns), Inr v) \<in> set (completed w0 w)) \<and>
         (\<forall>rk\<in>set (refkeys this reference ns). kv w (prefixed this rk) = None)"
proof -
  let ?rks = "refkeys this reference ns"
  note inv' = inv[unfolded empty_sets_inv_def fst_conv snd_conv]
  from inv' obtain es where es: "log w = log w0 @ es"
    "\<forall>e\<in>set es. (fst e = GetNamespace \<or> fst e \<in> SMEMBERS ` set ?rks \<or> fst e = DEL ?rks) \<and>
                 (\<exists>v. snd e = Inr v)" by blast
  have comp: "completed w0 w = es" using es(1) by (simp add: completed_def)
  show "\<forall>e\<in>set (completed w0 w).
           (fst e = GetNamespace \<or> fst e \<in> SMEMBERS ` set ?rks \<or> fst e = DEL ?rks) \<and>
           (\<exists>v. snd e = Inr v)"
    unfolding comp by (rule es(2))
  from inv' consider (init) "t = deleteKeysByReference this reference" "w = w0"
    | (tree) N ds oc u where "t = dkr_tree N ?rks ds oc u" "dkr_ok this ?rks ds oc u"
      "\<forall>i<length ds. ds ! i = deleteValues this (?rks ! i) \<or> fulfilled (ds ! i)"
      "u = Await (DEL ?rks) \<or>
           (\<exists>v. u = Settled (Inr v) \<and> (DEL ?rks, Inr v) \<in> set (completed w0 w) \<and>
                (\<forall>rk\<in>set ?rks. kv w (prefixed this rk) = None))"
    by blast
  note cases = this
  have norej: "\<forall>e. oc \<noteq> Some (Inl e)"
    if ok: "dkr_ok this ?rks ds oc u"
      and ch: "\<forall>i<length ds. ds ! i = deleteValues this (?rks ! i) \<or> fulfilled (ds ! i)"
    for ds oc u
  proof (intro allI notI)
    fix e assume "oc = Some (Inl e)"
    with ok have "\<exists>d\<in>set ds. outcome d = Some (Inl e)" by (simp add: dkr_ok_def group_ok_def)
    then obtain i where "i < length ds" "outcome (ds ! i) = Some (Inl e)"
      by (metis in_set_conv_nth)
    with ch show False by (auto simp: fulfilled_def)
  qed
  show "\<forall>e. outcome t \<noteq> Some (Inl e)"
  proof (cases rule: cases)
    case init
    then show ?thesis by (simp add: dkr_outcome0)
  next
    case tree
    from norej[OF tree(2,3)] tree(4) show ?thesis unfolding tree(1) dkr_tree_outcome
      by (auto split: option.splits sum.splits)
  qed
  assume idle: "inflight t = []"
  have notarget: "target p t = None" for p
    using target_inflight[of p t] idle by (cases "target p t") auto
  show "outcome t = Some (Inr Undefined) \<and> (\<exists>v. (DEL ?rks, Inr v) \<in> set (completed w0 w)) \<and>
        (\<forall>rk\<in>set ?rks. kv w (prefixed this rk) = None)"
  proof (cases rule: cases)
    case init
    with notarget[of "[0, 0]"] show ?thesis by (simp add: dkr_target0 target_None_iff)
  next
    case tree
    have ful: "fulfilled (ds ! i)" if i: "i < length ds" for i
    proof (rule ccontr)
      assume "\<not> fulfilled (ds ! i)"
      with tree(3) i have "ds ! i = deleteValues this (?rks ! i)" by blast
      then have "target [0, 0, 0] (ds ! i) = Some (SMEMBERS (?rks ! i))"
        by (simp add: deleteValues_target)
      with i have "target (0 # 1 # 0 # i # [0, 0, 0]) t = Some (SMEMBERS (?rks ! i))"
        unfolding tree(1) dkr_tree_target[OF tree(2)] by blast
      with notarget show False by simp
    qed
    then have "list_all fulfilled ds" by (simp add: list_all_length)
    moreover from tree(2) have "group_ok ds oc" by (simp add: dkr_ok_def)
    ultimately obtain v where oc: "oc = Some (Inr v)" using group_ok_fulfilled_iff by blast
    have "u \<noteq> Await (DEL ?rks)"
    proof
      assume "u = Await (DEL ?rks)"
      with oc have "target [0, 1, 1] t = Some (DEL ?rks)"
        unfolding tree(1) dkr_tree_target[OF tree(2)] by blast
      with notarget show False by simp
    qed
    with tree(4) obtain v' where u: "u = Settled (Inr v')"
      "(DEL ?rks, Inr v') \<in> set (completed w0 w)" "\<forall>rk\<in>set ?rks. kv w (prefixed this rk) = None" by blast
    from oc u(1) have "outcome t = Some (Inr Undefined)" by (simp add: tree(1) dkr_tree_outcome)
    with u show ?thesis by blast
  qed
qed

text \<open>
  C8. For a reference key whose set is absent or empty, in every execution of
  \<^verbatim>\<open>deleteValues\<close> the calls made are the single \<^verbatim>\<open>smembers\<close>, so no \<^verbatim>\<open>del\<close> is sent, and
  once the reply to the read has arrived from a store that does not fail the promise is
  fulfilled. When the reference set of every segment of the namespace is absent or empty
  and the store does not fail, no execution of \<^verbatim>\<open>deleteKeysByReference\<close> is rejected; every
  call made is the namespace lookup, a read of a reference set or the one \<^verbatim>\<open>del\<close> of the
  reference keys, and each succeeds; and when no call is in flight any more the promise is
  fulfilled, the \<^verbatim>\<open>del\<close> of the reference keys has succeeded and the reference keys are
  absent.
\<close>

theorem deleteValues_empty_reference_set:
  "(membership (kv w) (prefixed this rk) = [] \<longrightarrow>
      calls_made w (run this sched (deleteValues this rk, w)) = [SMEMBERS rk] \<and>
      (\<not> holds_string (kv w) (prefixed this rk) \<and> faulty w (length (log w)) = None \<and> [0, 0, 0] \<in> set sched \<longrightarrow>
         outcome (fst (run this sched (deleteValues this rk, w))) = Some (Inr Undefined))) \<and>
   ((\<forall>n. faulty w n = None) \<and> getNamespace this (kv w) = (Inr (Str ns), kv w) \<and>
    (\<forall>k\<in>set (refkeys this reference ns). membership (kv w) (prefixed this k) = [] \<and> \<not> holds_string (kv w) (prefixed this k)) \<longrightarrow>
      (\<forall>e. outcome (fst (run this sched' (deleteKeysByReference this reference, w))) \<noteq> Some (Inl e)) \<and>
      (\<forall>e\<in>set (completed w (snd (run this sched' (deleteKeysByReference this reference, w)))).
         (fst e = GetNamespace \<or> fst e \<in> SMEMBERS ` set (refkeys this reference ns) \<or>
          fst e = DEL (refkeys this reference ns)) \<and> (\<exists>v. snd e = Inr v)) \<and>
      (inflight (fst (run this sched' (deleteKeysByReference this reference, w))) = [] \<longrightarrow>
         outcome (fst (run this sched' (deleteKeysByReference this reference, w))) =
           Some (Inr Undefined) \<and>
         (\<exists>v. (DEL (refkeys this reference ns), Inr v) \<in>
                set (completed w (snd (run this sched' (deleteKeysByReference this reference, w))))) \<and>
         (\<forall>k\<in>set (refkeys this reference ns).
            kv (snd (run this sched' (deleteKeysByReference this reference, w))) (prefixed this k) = None)))"
proof (intro conjI impI)
  assume m: "membership (kv w) (prefixed this rk) = []"
  show "calls_made w (run this sched (deleteValues this rk, w)) = [SMEMBERS rk]"
    by (rule deleteValues_empty_calls(1)[OF m])
  assume "\<not> holds_string (kv w) (prefixed this rk) \<and> faulty w (length (log w)) = None \<and> [0, 0, 0] \<in> set sched"
  then show "outcome (fst (run this sched (deleteValues this rk, w))) = Some (Inr Undefined)"
    using deleteValues_empty_calls(2)[OF m, of sched] by blast
next
  assume h: "(\<forall>n. faulty w n = None) \<and> getNamespace this (kv w) = (Inr (Str ns), kv w) \<and>
    (\<forall>k\<in>set (refkeys this reference ns). membership (kv w) (prefixed this k) = [] \<and> \<not> holds_string (kv w) (prefixed this k))"
  obtain t' w' where r: "run this sched' (deleteKeysByReference this reference, w) = (t', w')"
    by force
  from h have "empty_sets_inv this reference ns w (deleteKeysByReference this reference, w)"
    by (intro empty_sets_inv_start) simp_all
  from empty_sets_inv_run[OF _ this, of sched'] h r
  have inv: "empty_sets_inv this reference ns w (t', w')" by simp
  note fin = empty_sets_inv_final[OF inv]
  show "\<forall>e. outcome (fst (run this sched' (deleteKeysByReference this reference, w))) \<noteq> Some (Inl e)"
    using fin(1) r by simp
  show "\<forall>e\<in>set (completed w (snd (run this sched' (deleteKeysByReference this reference, w)))).
         (fst e = GetNamespace \<or> fst e \<in> SMEMBERS ` set (refkeys this reference ns) \<or>
          fst e = DEL (refkeys this reference ns)) \<and> (\<exists>v. snd e = Inr v)"
    using fin(2) r by simp
  assume "inflight (fst (run this sched' (deleteKeysByReference this reference, w))) = []"
  then have idle: "inflight t' = []" using r by simp
  from fin(3)[OF idle] r
  show "outcome (fst (run this sched' (deleteKeysByReference this reference, w))) =
           Some (Inr Undefined)"
    and "\<exists>v. (DEL (refkeys this reference ns), Inr v) \<in>
                set (completed w (snd (run this sched' (deleteKeysByReference this reference, w))))"
    and "\<forall>k\<in>set (refkeys this reference ns).
            kv (snd (run this sched' (deleteKeysByReference this reference, w))) (prefixed this k) = None"
    by simp_all
qed

theorem deleteValues_empty_reference_set_witness:
  "membership (kv empty_world) (prefixed example_cache ''tag:users:standard_ref'') = [] \<and>
   calls_made empty_world
     (run example_cache [[0, 0, 0]] (deleteValues example_cache ''tag:users:standard_ref'', empty_world)) =
     [SMEMBERS ''tag:users:standard_ref''] \<and>
   outcome (fst (run example_cache [[0, 0, 0]]
     (deleteValues example_cache ''tag:users:standard_ref'', empty_world))) = Some (Inr Undefined) \<and>
   refkeys example_cache REFERENCE_KEY_STANDARD ''users|premium'' =
     [''tag:users:standard_ref'', ''tag:premium:standard_ref''] \<and>
   inflight (fst (run example_cache
       [[0, 0], [0, 1, 0, 1, 0, 0, 0], [0, 1, 0, 0, 0, 0, 0], [0, 1, 1]]
       (deleteKeysByReference example_cache REFERENCE_KEY_STANDARD, empty_world))) = [] \<and>
   outcome (fst (run example_cache
       [[0, 0], [0, 1, 0, 1, 0, 0, 0], [0, 1, 0, 0, 0, 0, 0], [0, 1, 1]]
       (deleteKeysByReference example_cache REFERENCE_KEY_STANDARD, empty_world))) =
     Some (Inr Undefined) \<and>
   completed empty_world (snd (run example_cache
       [[0, 0], [0, 1, 0, 1, 0, 0, 0], [0, 1, 0, 0, 0, 0, 0], [0, 1, 1]]
       (deleteKeysByReference example_cache REFERENCE_KEY_STANDARD, empty_world))) =
     [(GetNamespace, Inr (Str ''users|premium'')),
      (SMEMBERS ''tag:premium:standard_ref'', Inr (Arr [])),
      (SMEMBERS ''tag:users:standard_ref'', Inr (Arr [])),
      (DEL [''tag:users:standard_ref'', ''tag:premium:standard_ref''], Inr (Num 0))]"
proof -
  let ?S = "[[0, 0], [0, 1, 0, 1, 0, 0, 0], [0, 1, 0, 0, 0, 0, 0], [0, 1, 1]]"
  let ?D = "run example_cache ?S (deleteKeysByReference example_cache REFERENCE_KEY_STANDARD, empty_world)"
  let ?V = "run example_cache [[0, 0, 0]] (deleteValues example_cache ''tag:users:standard_ref'', empty_world)"
  note inst = deleteValues_empty_reference_set[where this = example_cache and w = empty_world
      and rk = "''tag:users:standard_ref''" and sched = "[[0, 0, 0]]" and sched' = ?S
      and reference = REFERENCE_KEY_STANDARD and ns = "''users|premium''"]
  have m: "membership (kv empty_world) (prefixed example_cache ''tag:users:standard_ref'') = []" by code_simp
  have s: "\<not> holds_string (kv empty_world) (prefixed example_cache ''tag:users:standard_ref'')" by code_simp
  have f: "\<forall>n. faulty empty_world n = None" by (simp add: empty_world_def)
  have g: "getNamespace example_cache (kv empty_world) = (Inr (Str ''users|premium''), kv empty_world)"
    by (simp add: example_cache_def)
  have r: "refkeys example_cache REFERENCE_KEY_STANDARD ''users|premium'' =
     [''tag:users:standard_ref'', ''tag:premium:standard_ref'']" by code_simp
  have m2: "membership (kv empty_world) (prefixed example_cache ''tag:premium:standard_ref'') = []" by code_simp
  have s2: "\<not> holds_string (kv empty_world) (prefixed example_cache ''tag:premium:standard_ref'')" by code_simp
  have e: "\<forall>k\<in>set (refkeys example_cache REFERENCE_KEY_STANDARD ''users|premium'').
             membership (kv empty_world) (prefixed example_cache k) = [] \<and> \<not> holds_string (kv empty_world) (prefixed example_cache k)"
    using m s m2 s2 by (simp only: r list.set ball_simps insert_iff empty_iff simp_thms)
  have i: "inflight (fst ?D) = []" by code_simp
  have c: "completed empty_world (snd ?D) =
     [(GetNamespace, Inr (Str ''users|premium'')),
      (SMEMBERS ''tag:premium:standard_ref'', Inr (Arr [])),
      (SMEMBERS ''tag:users:standard_ref'', Inr (Arr [])),
      (DEL [''tag:users:standard_ref'', ''tag:premium:standard_ref''], Inr (Num 0))]" by code_simp
  from inst m s f have a1: "calls_made empty_world ?V = [SMEMBERS ''tag:users:standard_ref'']"
    by blast
  have "[0, 0, 0] \<in> set [[0, 0, 0::nat]]" by simp
  with inst m s f have a2: "outcome (fst ?V) = Some (Inr Undefined)" by blast
  from inst f g e i have a3: "outcome (fst ?D) = Some (Inr Undefined)" by blast
  from m a1 a2 r i a3 c show ?thesis by simp
qed

end
